theory Spec2Isabelle
  imports Complex_Main "HOL-Library.Log_Nat" "HOL-Library.Sublist"
begin

section \<open>Subtitle grouping of \<open>transcriber.py\<close>\<close>

text \<open>
  The development embeds \<open>AudioTranscriber.process_transcription\<close> and its two helpers,
  \<open>_process_segment_with_words\<close> and \<open>_process_segment_without_words\<close> (the leading
  underscore is dropped: an Isabelle name cannot start with one).

  Conventions of the embedding:
  \<^item> a Python \<open>str\<close> is a \<open>string\<close>, one \<open>char\<close> per code point, so the model covers the
    texts whose code points are below 256; \<open>len\<close> is \<open>length\<close>;
  \<^item> a dictionary with known keys is a record of optional fields, \<open>None\<close> when the key
    is absent; \<open>d[k]\<close> raises \<open>KeyError\<close> on an absent key, \<open>d.get(k, dflt)\<close> does not;
  \<^item> a timing is a number or Python's \<open>None\<close>, a \<open>rat option\<close>; so the field of a
    timing is a \<open>rat option option\<close>: \<open>None\<close> for an absent key, \<open>Some None\<close> for a key
    that holds \<open>None\<close>, \<open>Some (Some s)\<close> for a key that holds the number \<open>s\<close>;
  \<^item> a number of seconds is an exact rational (every finite float and every integer is
    one; NaN and the infinities are outside the model);
  \<^item> an exception is the \<open>Inl\<close> of a sum, and it ends the run where it is raised.
\<close>

subsection \<open>Errors\<close>

datatype error = KeyError string | TypeError | OverflowError

subsection \<open>\<open>datetime.timedelta\<close>\<close>

text \<open>
  A \<open>timedelta\<close> is a whole number of microseconds. \<open>timedelta(seconds=s)\<close> splits \<open>s\<close>
  into its integral part (towards zero) and its fractional part, multiplies the
  fractional part by \<open>1e6\<close> in double precision, adds the integral part times \<open>10^6\<close>
  exactly, and rounds the sum to the nearest whole number, ties to the even one. It
  raises \<open>OverflowError\<close> when the number of whole days falls outside
  \<open>-999999999 .. 999999999\<close>.

  \<open>round_double\<close> is the rounding of a product of two doubles: to the nearest multiple
  of the unit in the last place of its 53 bit significand, ties to even, with the
  exponent not below \<open>-1022\<close>. The products that occur are below \<open>10^6\<close> in magnitude,
  so the upper end of the range of a double plays no role.
\<close>

datatype timedelta = Timedelta (microseconds: int)

definition round_half_even :: "rat \<Rightarrow> int" where
  "round_half_even x =
     (let f = \<lfloor>x\<rfloor>; d = x - of_int f
      in if d < 1 / 2 then f
         else if 1 / 2 < d then f + 1
         else if even f then f else f + 1)"

text \<open>\<open>ilog2 x\<close> is the \<open>k\<close> with \<open>2^k \<le> |x| < 2^(k+1)\<close>, for \<open>x\<close> other than \<open>0\<close>.\<close>

definition ilog2 :: "rat \<Rightarrow> int" where
  "ilog2 x =
     (let (p, q) = quotient_of \<bar>x\<bar>; k = bitlen p - bitlen q
      in if 2 powi k \<le> \<bar>x\<bar> then k else k - 1)"

definition exponent :: "rat \<Rightarrow> int" where
  "exponent x = max (ilog2 x) (- 1022)"

definition round_double :: "rat \<Rightarrow> rat" where
  "round_double x =
     (if x = 0 then 0
      else of_int (round_half_even (x / 2 powi (exponent x - 52))) * 2 powi (exponent x - 52))"

definition trunc :: "rat \<Rightarrow> int" where
  "trunc x = (if 0 \<le> x then \<lfloor>x\<rfloor> else - \<lfloor>- x\<rfloor>)"

text \<open>The number of microseconds before the last rounding.\<close>

definition scaled :: "rat \<Rightarrow> rat" where
  "scaled s = of_int (trunc s) * 1000000 + round_double ((s - of_int (trunc s)) * 1000000)"

definition to_microseconds :: "rat \<Rightarrow> int" where
  "to_microseconds s = round_half_even (scaled s)"

definition timedelta_seconds :: "rat \<Rightarrow> error + timedelta" where
  "timedelta_seconds s =
     (let us = to_microseconds s;
          days = us div 86400000000
      in if days < - 999999999 \<or> 999999999 < days then Inl OverflowError
         else Inr (Timedelta us))"

text \<open>
  \<open>timedelta(seconds=v)\<close> for a value that may be \<open>None\<close>: \<open>None\<close> is not a number, and
  the constructor raises \<open>TypeError\<close>.
\<close>

definition timedelta_of :: "rat option \<Rightarrow> error + timedelta" where
  "timedelta_of v = (case v of None \<Rightarrow> Inl TypeError | Some s \<Rightarrow> timedelta_seconds s)"

subsection \<open>Strings\<close>

text \<open>\<open>str.isspace\<close> on the code points below 256, and \<open>str.strip()\<close>.\<close>

definition isspace :: "char \<Rightarrow> bool" where
  "isspace c =
     (let n = (of_char c :: nat)
      in (9 \<le> n \<and> n \<le> 13) \<or> (28 \<le> n \<and> n \<le> 32) \<or> n = 133 \<or> n = 160)"

definition strip :: "string \<Rightarrow> string" where
  "strip s = rev (dropWhile isspace (rev (dropWhile isspace s)))"

subsection \<open>Dictionaries\<close>

text \<open>\<open>d[key]\<close> and \<open>d.get("text", "")\<close> on an optional field.\<close>

definition getitem :: "string \<Rightarrow> 'a option \<Rightarrow> error + 'a" where
  "getitem key field = (case field of None \<Rightarrow> Inl (KeyError key) | Some v \<Rightarrow> Inr v)"

definition get_text :: "string option \<Rightarrow> string" where
  "get_text field = (case field of None \<Rightarrow> [] | Some t \<Rightarrow> t)"

subsection \<open>Input and output data\<close>

record word_info =
  w_text :: "string option"
  w_start :: "rat option option"
  w_end :: "rat option option"

record segment =
  seg_words :: "word_info list option"
  seg_start :: "rat option option"
  seg_end :: "rat option option"
  seg_text :: "string option"

record transcription =
  segments :: "segment list option"

text \<open>\<open>srt.Subtitle\<close>; its field \<open>end\<close> is \<open>end'\<close> here.\<close>

record subtitle =
  index :: int
  start :: timedelta
  end' :: timedelta
  content :: string

subsection \<open>\<open>_process_segment_with_words\<close>\<close>

text \<open>
  The local variables of the function, as they stand between two iterations;
  \<open>start_time\<close> and \<open>end_time\<close> hold a number or \<open>None\<close>.
\<close>

record loop_state =
  subtitles :: "subtitle list"
  accumulated_text :: string
  start_time :: "rat option"
  end_time :: "rat option"
  cur_index :: int

text \<open>
  One iteration of the \<open>for word_info in segment["words"]\<close> loop. Inside the loop a
  flush calls \<open>timedelta(seconds=start_time)\<close> and \<open>timedelta(seconds=end_time)\<close> without
  a guard, so a value that is \<open>None\<close> there raises \<open>TypeError\<close>.
\<close>

definition word_step :: "int \<Rightarrow> word_info \<Rightarrow> loop_state \<Rightarrow> error + loop_state" where
  "word_step min_chars word_info st =
     (let text = strip (get_text (w_text word_info))
      in if text = [] then Inr st
         else
           case (if accumulated_text st = []
                 then getitem ''start'' (w_start word_info)
                 else Inr (start_time st)) of
             Inl e \<Rightarrow> Inl e
           | Inr start_time' \<Rightarrow>
               let accumulated_text' =
                     (if accumulated_text st \<noteq> [] then accumulated_text st @ '' '' @ text
                      else text)
               in (case getitem ''end'' (w_end word_info) of
                     Inl e \<Rightarrow> Inl e
                   | Inr end_time' \<Rightarrow>
                       if min_chars \<le> int (length accumulated_text') then
                         (case timedelta_of start_time' of
                            Inl e \<Rightarrow> Inl e
                          | Inr start_td \<Rightarrow>
                              (case timedelta_of end_time' of
                                 Inl e \<Rightarrow> Inl e
                               | Inr end_td \<Rightarrow>
                                   Inr \<lparr>subtitles = subtitles st @
                                          [\<lparr>index = cur_index st, start = start_td,
                                            end' = end_td, content = accumulated_text'\<rparr>],
                                        accumulated_text = [],
                                        start_time = None,
                                        end_time = None,
                                        cur_index = cur_index st + 1\<rparr>))
                       else Inr (st\<lparr>accumulated_text := accumulated_text',
                                    start_time := start_time',
                                    end_time := end_time'\<rparr>)))"

fun words_loop :: "int \<Rightarrow> word_info list \<Rightarrow> loop_state \<Rightarrow> error + loop_state" where
  "words_loop min_chars [] st = Inr st"
| "words_loop min_chars (word_info # rest) st =
     (case word_step min_chars word_info st of
        Inl e \<Rightarrow> Inl e
      | Inr st' \<Rightarrow> words_loop min_chars rest st')"

definition init_state :: "int \<Rightarrow> loop_state" where
  "init_state start_index =
     \<lparr>subtitles = [], accumulated_text = [], start_time = None, end_time = None,
      cur_index = start_index\<rparr>"

text \<open>
  The trailing block after the loop: \<open>timedelta(seconds=start_time) if start_time is
  not None else timedelta(0)\<close>, and the same for the end.
\<close>

definition trailing_block :: "loop_state \<Rightarrow> error + (subtitle list \<times> int)" where
  "trailing_block st =
     (if accumulated_text st \<noteq> [] then
        (case (case start_time st of
                 Some s \<Rightarrow> timedelta_seconds s
               | None \<Rightarrow> Inr (Timedelta 0)) of
           Inl e \<Rightarrow> Inl e
         | Inr start_td \<Rightarrow>
             (case (case end_time st of
                      Some s \<Rightarrow> timedelta_seconds s
                    | None \<Rightarrow> Inr (Timedelta 0)) of
                Inl e \<Rightarrow> Inl e
              | Inr end_td \<Rightarrow>
                  Inr (subtitles st @
                         [\<lparr>index = cur_index st, start = start_td, end' = end_td,
                           content = accumulated_text st\<rparr>],
                       cur_index st + 1)))
      else Inr (subtitles st, cur_index st))"

definition process_segment_with_words ::
    "int \<Rightarrow> segment \<Rightarrow> int \<Rightarrow> error + (subtitle list \<times> int)" where
  "process_segment_with_words min_chars segment start_index =
     (case getitem ''words'' (seg_words segment) of
        Inl e \<Rightarrow> Inl e
      | Inr ws \<Rightarrow>
          (case words_loop min_chars ws (init_state start_index) of
             Inl e \<Rightarrow> Inl e
           | Inr st \<Rightarrow> trailing_block st))"

subsection \<open>\<open>_process_segment_without_words\<close>\<close>

definition process_segment_without_words :: "segment \<Rightarrow> int \<Rightarrow> error + subtitle" where
  "process_segment_without_words segment idx =
     (case getitem ''start'' (seg_start segment) of
        Inl e \<Rightarrow> Inl e
      | Inr s \<Rightarrow>
          (case timedelta_of s of
             Inl e \<Rightarrow> Inl e
           | Inr start_td \<Rightarrow>
               (case getitem ''end'' (seg_end segment) of
                  Inl e \<Rightarrow> Inl e
                | Inr t \<Rightarrow>
                    (case timedelta_of t of
                       Inl e \<Rightarrow> Inl e
                     | Inr end_td \<Rightarrow>
                         Inr \<lparr>index = idx, start = start_td, end' = end_td,
                              content = strip (get_text (seg_text segment))\<rparr>))))"

subsection \<open>\<open>process_transcription\<close>\<close>

text \<open>
  The body of the loop over the segments: the blocks one segment adds and the index
  the next segment starts from. The test is \<open>"words" in segment\<close>.
\<close>

definition segment_step :: "int \<Rightarrow> segment \<Rightarrow> int \<Rightarrow> error + (subtitle list \<times> int)" where
  "segment_step min_chars segment idx =
     (if seg_words segment \<noteq> None then process_segment_with_words min_chars segment idx
      else (case process_segment_without_words segment idx of
              Inl e \<Rightarrow> Inl e
            | Inr subtitle \<Rightarrow> Inr ([subtitle], idx + 1)))"

fun segments_loop ::
    "int \<Rightarrow> segment list \<Rightarrow> subtitle list \<Rightarrow> int \<Rightarrow> error + subtitle list" where
  "segments_loop min_chars [] subs idx = Inr subs"
| "segments_loop min_chars (segment # rest) subs idx =
     (case segment_step min_chars segment idx of
        Inl e \<Rightarrow> Inl e
      | Inr (segment_subtitles, idx') \<Rightarrow>
          segments_loop min_chars rest (subs @ segment_subtitles) idx')"

text \<open>\<open>result.get("segments", [])\<close>\<close>

definition get_segments :: "transcription \<Rightarrow> segment list" where
  "get_segments result = (case segments result of None \<Rightarrow> [] | Some ss \<Rightarrow> ss)"

definition process_transcription :: "int \<Rightarrow> transcription \<Rightarrow> error + subtitle list" where
  "process_transcription min_chars result =
     segments_loop min_chars (get_segments result) [] 1"

text \<open>
  The same loop with the blocks of each segment kept apart: what each segment
  contributed to the list that \<open>process_transcription\<close> returns.
\<close>

fun blocks_by_segment :: "int \<Rightarrow> segment list \<Rightarrow> int \<Rightarrow> error + subtitle list list" where
  "blocks_by_segment min_chars [] idx = Inr []"
| "blocks_by_segment min_chars (segment # rest) idx =
     (case segment_step min_chars segment idx of
        Inl e \<Rightarrow> Inl e
      | Inr (segment_subtitles, idx') \<Rightarrow>
          (case blocks_by_segment min_chars rest idx' of
             Inl e \<Rightarrow> Inl e
           | Inr bss \<Rightarrow> Inr (segment_subtitles # bss)))"

subsection \<open>Notions the statements use\<close>

text \<open>A word the loop does not skip: its text is not empty after \<open>strip()\<close>.\<close>

definition nonblank :: "word_info \<Rightarrow> bool" where
  "nonblank w = (strip (get_text (w_text w)) \<noteq> [])"

text \<open>The number a field holds, if the key is there and holds one.\<close>

definition held :: "rat option option \<Rightarrow> rat option" where
  "held field = (case field of None \<Rightarrow> None | Some v \<Rightarrow> v)"

text \<open>
  The new value of \<open>accumulated_text\<close> and of \<open>start_time\<close> after a word that is not
  skipped (lines 71 to 75 of the source).
\<close>

definition join_word :: "string \<Rightarrow> word_info \<Rightarrow> string" where
  "join_word acc w =
     (if acc \<noteq> [] then acc @ '' '' @ strip (get_text (w_text w))
      else strip (get_text (w_text w)))"

definition joined_text :: "loop_state \<Rightarrow> word_info \<Rightarrow> string" where
  "joined_text st w = join_word (accumulated_text st) w"

definition block_start :: "loop_state \<Rightarrow> word_info \<Rightarrow> rat option" where
  "block_start st w = (if accumulated_text st = [] then held (w_start w) else start_time st)"

text \<open>
  The state in which the trailing block takes \<open>timedelta(0)\<close> for its start or its
  end (lines 95 to 97).
\<close>

definition uses_fallback :: "loop_state \<Rightarrow> bool" where
  "uses_fallback st =
     (accumulated_text st \<noteq> [] \<and> (start_time st = None \<or> end_time st = None))"

definition timing_inv :: "loop_state \<Rightarrow> bool" where
  "timing_inv st =
     ((accumulated_text st \<noteq> [] \<longleftrightarrow> start_time st \<noteq> None) \<and>
      (start_time st \<noteq> None \<longrightarrow> end_time st \<noteq> None))"

definition start_inv :: "loop_state \<Rightarrow> bool" where
  "start_inv st = (accumulated_text st \<noteq> [] \<longleftrightarrow> start_time st \<noteq> None)"

text \<open>
  The timings of a word that is not skipped hold numbers, where the keys are there:
  the \<open>start\<close>, and both \<open>start\<close> and \<open>end\<close>.
\<close>

definition start_numeric :: "word_info \<Rightarrow> bool" where
  "start_numeric w = (nonblank w \<longrightarrow> w_start w \<noteq> Some None)"

definition times_numeric :: "word_info \<Rightarrow> bool" where
  "times_numeric w = (nonblank w \<longrightarrow> w_start w \<noteq> Some None \<and> w_end w \<noteq> Some None)"

text \<open>The blocks \<open>bs\<close> carry the indices \<open>i, i + 1, ...\<close> and \<open>j\<close> is the next free one.\<close>

definition indexed_from :: "int \<Rightarrow> int \<Rightarrow> subtitle list \<Rightarrow> bool" where
  "indexed_from i j bs = (i \<le> j \<and> map index bs = [i..j - 1])"

text \<open>
  Whitespace normalisation: \<open>split_ws\<close> is \<open>str.split()\<close>, the maximal runs of
  characters that are not whitespace; \<open>join_space\<close> is \<open>" ".join\<close>; a normalised text
  has its words separated by single spaces and no whitespace at either end.
\<close>

fun split_from :: "string \<Rightarrow> string \<Rightarrow> string list" where
  "split_from cur [] = (if cur = [] then [] else [cur])"
| "split_from cur (c # cs) =
     (if isspace c then (if cur = [] then split_from [] cs else cur # split_from [] cs)
      else split_from (cur @ [c]) cs)"

definition split_ws :: "string \<Rightarrow> string list" where
  "split_ws s = split_from [] s"

fun join_space :: "string list \<Rightarrow> string" where
  "join_space [] = []"
| "join_space [x] = x"
| "join_space (x # y # zs) = x @ '' '' @ join_space (y # zs)"

definition normalize_ws :: "string \<Rightarrow> string" where
  "normalize_ws s = join_space (split_ws s)"

text \<open>
  The texts a result carries, in order: of a word-level segment the texts of the words
  that are not blank, of a flat segment its text.
\<close>

definition segment_texts :: "segment \<Rightarrow> string list" where
  "segment_texts seg =
     (case seg_words seg of
        Some ws \<Rightarrow> map (\<lambda>w. get_text (w_text w)) (filter nonblank ws)
      | None \<Rightarrow> [get_text (seg_text seg)])"

definition source_texts :: "transcription \<Rightarrow> string list" where
  "source_texts result = concat (map segment_texts (get_segments result))"

text \<open>The words held by the local variables of the loop.\<close>

definition state_tokens :: "loop_state \<Rightarrow> string list" where
  "state_tokens st =
     concat (map (\<lambda>b. split_ws (content b)) (subtitles st)) @ split_ws (accumulated_text st)"

text \<open>
  The recorded start times of the words that are not blank, in order; the start time
  of the block being accumulated; the start times committed so far.
\<close>

definition word_starts :: "word_info list \<Rightarrow> rat list" where
  "word_starts ws = List.map_filter (\<lambda>w. if nonblank w then held (w_start w) else None) ws"

definition pending_start :: "loop_state \<Rightarrow> rat list" where
  "pending_start st = (case start_time st of None \<Rightarrow> [] | Some s \<Rightarrow> [s])"

definition starts_so_far :: "loop_state \<Rightarrow> (error + timedelta) list" where
  "starts_so_far st =
     map (\<lambda>b. Inr (start b)) (subtitles st) @ map timedelta_seconds (pending_start st)"

text \<open>
  Input conditions. \<open>wellformed\<close>: every word of a word-level segment and every flat
  segment has the keys \<open>start\<close> and \<open>end\<close>. \<open>timings_accepted\<close>: every timing that is
  there, on a word that is not blank or on a flat segment, holds a number for which
  \<open>timedelta(seconds=s)\<close> returns.
\<close>

definition converts :: "rat \<Rightarrow> bool" where
  "converts s = (case timedelta_seconds s of Inl e \<Rightarrow> False | Inr td \<Rightarrow> True)"

definition value_accepted :: "rat option \<Rightarrow> bool" where
  "value_accepted v = (case v of None \<Rightarrow> True | Some s \<Rightarrow> converts s)"

definition field_accepted :: "rat option option \<Rightarrow> bool" where
  "field_accepted field =
     (case field of None \<Rightarrow> True | Some None \<Rightarrow> False | Some (Some s) \<Rightarrow> converts s)"

definition word_wellformed :: "word_info \<Rightarrow> bool" where
  "word_wellformed w = (w_start w \<noteq> None \<and> w_end w \<noteq> None)"

definition segment_wellformed :: "segment \<Rightarrow> bool" where
  "segment_wellformed seg =
     (case seg_words seg of
        Some ws \<Rightarrow> list_all word_wellformed ws
      | None \<Rightarrow> seg_start seg \<noteq> None \<and> seg_end seg \<noteq> None)"

definition wellformed :: "transcription \<Rightarrow> bool" where
  "wellformed result = list_all segment_wellformed (get_segments result)"

definition word_accepted :: "word_info \<Rightarrow> bool" where
  "word_accepted w =
     (nonblank w \<longrightarrow> field_accepted (w_start w) \<and> field_accepted (w_end w))"

definition segment_accepted :: "segment \<Rightarrow> bool" where
  "segment_accepted seg =
     (case seg_words seg of
        Some ws \<Rightarrow> list_all word_accepted ws
      | None \<Rightarrow> field_accepted (seg_start seg) \<and> field_accepted (seg_end seg))"

definition timings_accepted :: "transcription \<Rightarrow> bool" where
  "timings_accepted result = list_all segment_accepted (get_segments result)"

text \<open>
  A key that the code reads is absent. The word loop reads \<open>end\<close> on every word that
  is not blank and \<open>start\<close> on every such word that opens a block, that is, one met
  with an empty accumulator; which words these are depends on the texts and on
  \<open>min_chars\<close> only, and \<open>loop_reads_absent\<close> follows the accumulator from \<open>acc\<close>. The
  flat path reads \<open>start\<close> and \<open>end\<close> of the segment.
\<close>

fun loop_reads_absent :: "int \<Rightarrow> string \<Rightarrow> word_info list \<Rightarrow> bool" where
  "loop_reads_absent min_chars acc [] = False"
| "loop_reads_absent min_chars acc (w # ws) =
     (if \<not> nonblank w then loop_reads_absent min_chars acc ws
      else (acc = [] \<and> w_start w = None) \<or> w_end w = None \<or>
           loop_reads_absent min_chars
             (if min_chars \<le> int (length (join_word acc w)) then [] else join_word acc w) ws)"

definition segment_reads_absent :: "int \<Rightarrow> segment \<Rightarrow> bool" where
  "segment_reads_absent min_chars seg =
     (case seg_words seg of
        Some ws \<Rightarrow> loop_reads_absent min_chars [] ws
      | None \<Rightarrow> seg_start seg = None \<or> seg_end seg = None)"

definition reads_absent :: "int \<Rightarrow> transcription \<Rightarrow> bool" where
  "reads_absent min_chars result = list_ex (segment_reads_absent min_chars) (get_segments result)"

text \<open>The loop invariant for runs whose timings \<open>timedelta\<close> accepts.\<close>

definition loop_ok :: "loop_state \<Rightarrow> bool" where
  "loop_ok st =
     (timing_inv st \<and> value_accepted (start_time st) \<and> value_accepted (end_time st))"

subsection \<open>Example inputs\<close>

text \<open>A word with its three keys, the timings being numbers.\<close>

definition word :: "string \<Rightarrow> rat \<Rightarrow> rat \<Rightarrow> word_info" where
  "word t s e = \<lparr>w_text = Some t, w_start = Some (Some s), w_end = Some (Some e)\<rparr>"

definition scenario_words :: "word_info list" where
  "scenario_words =
     [word ''Hi'' 0 (1 / 2), word ''there'' (1 / 2) 1, word ''friend'' 1 (16 / 10)]"

definition scenario_segment :: segment where
  "scenario_segment =
     \<lparr>seg_words = Some scenario_words, seg_start = None, seg_end = None, seg_text = None\<rparr>"

definition flat_segment :: segment where
  "flat_segment =
     \<lparr>seg_words = None, seg_start = Some (Some 2), seg_end = Some (Some 4),
      seg_text = Some '' Hello world ''\<rparr>"

definition scenario_result :: transcription where
  "scenario_result = \<lparr>segments = Some [scenario_segment, flat_segment]\<rparr>"

definition blocks_min_10 :: "subtitle list" where
  "blocks_min_10 =
     [\<lparr>index = 1, start = Timedelta 0, end' = Timedelta 1600000,
       content = ''Hi there friend''\<rparr>]"

definition blocks_min_2 :: "subtitle list" where
  "blocks_min_2 =
     [\<lparr>index = 1, start = Timedelta 0, end' = Timedelta 500000, content = ''Hi''\<rparr>,
      \<lparr>index = 2, start = Timedelta 500000, end' = Timedelta 1000000, content = ''there''\<rparr>,
      \<lparr>index = 3, start = Timedelta 1000000, end' = Timedelta 1600000,
       content = ''friend''\<rparr>]"

definition flat_block :: "int \<Rightarrow> subtitle" where
  "flat_block i =
     \<lparr>index = i, start = Timedelta 2000000, end' = Timedelta 4000000,
      content = ''Hello world''\<rparr>"

definition blocks_min_8 :: "subtitle list" where
  "blocks_min_8 =
     [\<lparr>index = 1, start = Timedelta 0, end' = Timedelta 1000000, content = ''Hi there''\<rparr>,
      \<lparr>index = 2, start = Timedelta 1000000, end' = Timedelta 1600000,
       content = ''friend''\<rparr>]"

text \<open>The local variables after the first word, and after the last, with \<open>min_chars = 8\<close>.\<close>

definition state_first_word :: loop_state where
  "state_first_word =
     \<lparr>subtitles = [], accumulated_text = ''Hi'', start_time = Some 0,
      end_time = Some (1 / 2), cur_index = 1\<rparr>"

definition state_min_8 :: loop_state where
  "state_min_8 =
     \<lparr>subtitles = [hd blocks_min_8], accumulated_text = ''friend'', start_time = Some 1,
      end_time = Some (16 / 10), cur_index = 2\<rparr>"

definition blank_word :: word_info where
  "blank_word = \<lparr>w_text = Some ''  '', w_start = None, w_end = None\<rparr>"

definition silent_segment :: segment where
  "silent_segment =
     \<lparr>seg_words = Some [blank_word], seg_start = Some (Some 7), seg_end = Some (Some 9),
      seg_text = Some ''ignored''\<rparr>"

definition blank_flat_segment :: segment where
  "blank_flat_segment =
     \<lparr>seg_words = None, seg_start = Some (Some 0), seg_end = Some (Some 1),
      seg_text = Some ''   ''\<rparr>"

definition out_of_order_segment :: segment where
  "out_of_order_segment =
     \<lparr>seg_words = Some [word ''afterwards'' 5 6, word ''beforehand'' 1 2],
      seg_start = None, seg_end = None, seg_text = None\<rparr>"

definition out_of_order_blocks :: "subtitle list" where
  "out_of_order_blocks =
     [\<lparr>index = 1, start = Timedelta 5000000, end' = Timedelta 6000000,
       content = ''afterwards''\<rparr>,
      \<lparr>index = 2, start = Timedelta 1000000, end' = Timedelta 2000000,
       content = ''beforehand''\<rparr>]"

text \<open>A word whose \<open>start\<close> and \<open>end\<close> keys are there and hold \<open>None\<close>.\<close>

definition null_word :: "string \<Rightarrow> word_info" where
  "null_word t = \<lparr>w_text = Some t, w_start = Some None, w_end = Some None\<rparr>"

definition null_segment :: segment where
  "null_segment =
     \<lparr>seg_words = Some [null_word ''Hi''], seg_start = None, seg_end = None,
      seg_text = None\<rparr>"

definition null_state :: loop_state where
  "null_state =
     \<lparr>subtitles = [], accumulated_text = ''Hi'', start_time = None, end_time = None,
      cur_index = 1\<rparr>"

definition late_null_segment :: segment where
  "late_null_segment =
     \<lparr>seg_words = Some [word ''afterwards'' 5 6, null_word ''Hi''],
      seg_start = None, seg_end = None, seg_text = None\<rparr>"

definition late_null_blocks :: "subtitle list" where
  "late_null_blocks =
     [\<lparr>index = 1, start = Timedelta 5000000, end' = Timedelta 6000000,
       content = ''afterwards''\<rparr>,
      \<lparr>index = 2, start = Timedelta 0, end' = Timedelta 0, content = ''Hi''\<rparr>]"

definition far_future_result :: transcription where
  "far_future_result =
     \<lparr>segments = Some
        [\<lparr>seg_words = None, seg_start = Some (Some 100000000000000),
          seg_end = Some (Some 100000000000001), seg_text = Some ''late''\<rparr>]\<rparr>"

definition null_flat_result :: transcription where
  "null_flat_result =
     \<lparr>segments = Some
        [\<lparr>seg_words = None, seg_start = Some None, seg_end = Some None,
          seg_text = Some ''late''\<rparr>]\<rparr>"

definition truncated_result :: transcription where
  "truncated_result =
     \<lparr>segments = Some
        [\<lparr>seg_words = Some [\<lparr>w_text = Some ''Hi'', w_start = Some (Some 0), w_end = None\<rparr>],
          seg_start = None, seg_end = None, seg_text = None\<rparr>]\<rparr>"

text \<open>The second word opens the second block and has no \<open>start\<close>.\<close>

definition reopened_result :: transcription where
  "reopened_result =
     \<lparr>segments = Some
        [\<lparr>seg_words = Some
            [word ''Hello world'' 0 1,
             \<lparr>w_text = Some ''again'', w_start = None, w_end = Some (Some 2)\<rparr>],
          seg_start = None, seg_end = None, seg_text = None\<rparr>]\<rparr>"

text \<open>The second word continues the first block and has no \<open>start\<close>.\<close>

definition continued_result :: transcription where
  "continued_result =
     \<lparr>segments = Some
        [\<lparr>seg_words = Some
            [word ''Hi'' 0 (1 / 2),
             \<lparr>w_text = Some ''there'', w_start = None, w_end = Some (Some 1)\<rparr>],
          seg_start = None, seg_end = None, seg_text = None\<rparr>]\<rparr>"

section \<open>One iteration of the word loop\<close>

lemma word_step_blank:
  "strip (get_text (w_text w)) = [] \<Longrightarrow> word_step mc w st = Inr st"
  by (simp add: word_step_def)

lemma word_step_cases [consumes 1, case_names blank keep flush]:
  assumes "word_step mc w st = Inr st'"
  obtains
    (blank) "\<not> nonblank w" "st' = st"
  | (keep) e where "nonblank w" "\<not> mc \<le> int (length (joined_text st w))"
      "w_end w = Some e" "accumulated_text st = [] \<longrightarrow> w_start w \<noteq> None"
      "st' = st\<lparr>accumulated_text := joined_text st w, start_time := block_start st w,
                  end_time := e\<rparr>"
  | (flush) s e sd ed where "nonblank w" "mc \<le> int (length (joined_text st w))"
      "w_end w = Some (Some e)" "block_start st w = Some s"
      "accumulated_text st = [] \<longrightarrow> w_start w \<noteq> None"
      "timedelta_seconds s = Inr sd" "timedelta_seconds e = Inr ed"
      "st' = \<lparr>subtitles = subtitles st @
                 [\<lparr>index = cur_index st, start = sd, end' = ed,
                   content = joined_text st w\<rparr>],
               accumulated_text = [], start_time = None, end_time = None,
               cur_index = cur_index st + 1\<rparr>"
proof (cases "nonblank w")
  case False
  with assms have "st' = st" by (simp add: word_step_def nonblank_def)
  with False show ?thesis by (rule blank)
next
  case True
  then have nb: "strip (get_text (w_text w)) \<noteq> []" by (simp add: nonblank_def)
  from assms nb obtain e where e: "w_end w = Some e"
    by (auto simp: word_step_def Let_def getitem_def split: if_splits option.splits sum.splits)
  from assms nb have present: "accumulated_text st = [] \<longrightarrow> w_start w \<noteq> None"
    by (auto simp: word_step_def Let_def getitem_def split: if_splits option.splits sum.splits)
  then have read:
    "(if accumulated_text st = [] then getitem ''start'' (w_start w) else Inr (start_time st)) =
     Inr (block_start st w)"
    by (auto simp: block_start_def held_def getitem_def split: option.splits)
  have joined: "(if accumulated_text st \<noteq> []
        then accumulated_text st @ '' '' @ strip (get_text (w_text w))
        else strip (get_text (w_text w))) = joined_text st w"
    by (simp add: joined_text_def join_word_def)
  from assms nb have step:
    "(if mc \<le> int (length (joined_text st w)) then
        (case timedelta_of (block_start st w) of
           Inl e \<Rightarrow> Inl e
         | Inr start_td \<Rightarrow>
             (case timedelta_of e of
                Inl e \<Rightarrow> Inl e
              | Inr end_td \<Rightarrow>
                  Inr \<lparr>subtitles = subtitles st @
                         [\<lparr>index = cur_index st, start = start_td, end' = end_td,
                           content = joined_text st w\<rparr>],
                       accumulated_text = [], start_time = None, end_time = None,
                       cur_index = cur_index st + 1\<rparr>))
      else Inr (st\<lparr>accumulated_text := joined_text st w, start_time := block_start st w,
                   end_time := e\<rparr>)) = Inr st'"
    unfolding word_step_def Let_def read joined by (simp add: e getitem_def)
  show ?thesis
  proof (cases "mc \<le> int (length (joined_text st w))")
    case False
    with step have "st' = st\<lparr>accumulated_text := joined_text st w,
        start_time := block_start st w, end_time := e\<rparr>"
      by simp
    with True False e present show ?thesis by (intro keep)
  next
    case long: True
    with step obtain sd ed where
      sd: "timedelta_of (block_start st w) = Inr sd" and ed: "timedelta_of e = Inr ed"
      and st': "st' = \<lparr>subtitles = subtitles st @
                 [\<lparr>index = cur_index st, start = sd, end' = ed,
                   content = joined_text st w\<rparr>],
               accumulated_text = [], start_time = None, end_time = None,
               cur_index = cur_index st + 1\<rparr>"
      by (auto split: sum.splits)
    from sd obtain s where s: "block_start st w = Some s" "timedelta_seconds s = Inr sd"
      by (auto simp: timedelta_of_def split: option.splits)
    from ed obtain t where t: "e = Some t" "timedelta_seconds t = Inr ed"
      by (auto simp: timedelta_of_def split: option.splits)
    from e t(1) have "w_end w = Some (Some t)" by simp
    with True long show ?thesis using s(1) present s(2) t(2) st' by (rule flush)
  qed
qed

lemma joined_text_nonempty: "nonblank w \<Longrightarrow> joined_text st w \<noteq> []"
  by (simp add: joined_text_def join_word_def nonblank_def)

section \<open>The conversion to microseconds does not decrease\<close>

text \<open>
  The two doubles nearest to 0.5328485 and to 0.0000025, where rounding the product
  in double precision and rounding the exact product differ, and the double nearest
  to 1.6.
\<close>

lemma to_microseconds_examples:
  "to_microseconds (585873121593 / 1099511627776) = 532848"
  "to_microseconds (5902958103587057 / 2361183241434822606848) = 2"
  "to_microseconds (3602879701896397 / 2251799813685248) = 1600000"
  by code_simp+

lemma round_half_even_bounds:
  "\<lfloor>x\<rfloor> \<le> round_half_even x \<and> round_half_even x \<le> \<lfloor>x\<rfloor> + 1"
  by (simp add: round_half_even_def Let_def)

lemma round_half_even_mono:
  assumes "x \<le> y"
  shows "round_half_even x \<le> round_half_even y"
proof (cases "\<lfloor>x\<rfloor> = \<lfloor>y\<rfloor>")
  case True
  with assms show ?thesis by (auto simp: round_half_even_def Let_def)
next
  case False
  with assms have "\<lfloor>x\<rfloor> < \<lfloor>y\<rfloor>" using floor_mono[of x y] by simp
  with round_half_even_bounds[of x] round_half_even_bounds[of y] show ?thesis by linarith
qed

lemma round_half_even_of_int: "round_half_even (of_int n) = n"
  by (simp add: round_half_even_def)

lemma bitlen_powi:
  assumes "0 < p"
  shows "(2::rat) powi (bitlen p - 1) \<le> of_int p" "of_int p < (2::rat) powi (bitlen p)"
proof -
  from assms have b: "1 \<le> bitlen p" by (auto simp: bitlen_alt_def)
  from bitlen_bounds[OF assms] have lo: "2 ^ nat (bitlen p - 1) \<le> p" and hi: "p < 2 ^ nat (bitlen p)"
    by auto
  have "(2::rat) powi (bitlen p - 1) = 2 ^ nat (bitlen p - 1)"
    using b by (simp add: power_int_def)
  also have "\<dots> = of_int (2 ^ nat (bitlen p - 1))" by simp
  also have "\<dots> \<le> of_int p" using lo by (simp only: of_int_le_iff)
  finally show "(2::rat) powi (bitlen p - 1) \<le> of_int p" .
  have "(of_int p :: rat) < of_int (2 ^ nat (bitlen p))" using hi by (simp only: of_int_less_iff)
  also have "\<dots> = 2 ^ nat (bitlen p)" by simp
  also have "\<dots> = (2::rat) powi (bitlen p)" using b by (simp add: power_int_def)
  finally show "of_int p < (2::rat) powi (bitlen p)" .
qed

lemma ilog2_bounds:
  assumes "x \<noteq> 0"
  shows "2 powi (ilog2 x) \<le> \<bar>x\<bar>" "\<bar>x\<bar> < 2 powi (ilog2 x + 1)"
proof -
  obtain p q where pq: "quotient_of \<bar>x\<bar> = (p, q)" by (cases "quotient_of \<bar>x\<bar>")
  then have q: "0 < q" by (rule quotient_of_denom_pos)
  from pq have x: "\<bar>x\<bar> = of_int p / of_int q" by (rule quotient_of_div)
  from assms have "0 < \<bar>x\<bar>" by simp
  with x q have p: "0 < p" by (simp add: zero_less_divide_iff)
  let ?k = "bitlen p - bitlen q"
  note bp = bitlen_powi[OF p] and bq = bitlen_powi[OF q]
  have qpos: "(0::rat) < of_int q" using q by simp
  have upper: "\<bar>x\<bar> < 2 powi (?k + 1)"
  proof -
    have "of_int p < (2::rat) powi (bitlen p)" by (rule bp(2))
    also have "\<dots> = 2 powi (?k + 1) * 2 powi (bitlen q - 1)"
      by (simp add: power_int_add[symmetric])
    also have "\<dots> \<le> 2 powi (?k + 1) * of_int q"
      using bq(1) by (intro mult_left_mono) simp_all
    finally show ?thesis using qpos by (simp add: x pos_divide_less_eq)
  qed
  have lower: "2 powi (?k - 1) \<le> \<bar>x\<bar>"
  proof -
    have "2 powi (?k - 1) * of_int q \<le> 2 powi (?k - 1) * (2::rat) powi (bitlen q)"
      using bq(2) by (intro mult_left_mono) simp_all
    also have "\<dots> = 2 powi (bitlen p - 1)"
      by (simp add: power_int_add[symmetric])
    also have "\<dots> \<le> of_int p" by (rule bp(1))
    finally show ?thesis using qpos by (simp add: x pos_le_divide_eq)
  qed
  show "2 powi (ilog2 x) \<le> \<bar>x\<bar>"
    using lower by (simp add: ilog2_def pq Let_def)
  show "\<bar>x\<bar> < 2 powi (ilog2 x + 1)"
    using upper by (simp add: ilog2_def pq Let_def not_le)
qed

lemma ilog2_mono:
  assumes "x \<noteq> 0" "\<bar>x\<bar> \<le> \<bar>y\<bar>"
  shows "ilog2 x \<le> ilog2 y"
proof -
  from assms have y: "y \<noteq> 0" by auto
  have "(2::rat) powi (ilog2 x) \<le> \<bar>x\<bar>" using assms(1) by (rule ilog2_bounds)
  also have "\<dots> \<le> \<bar>y\<bar>" by (rule assms(2))
  also have "\<dots> < 2 powi (ilog2 y + 1)" using y by (rule ilog2_bounds)
  finally have "(2::rat) powi (ilog2 x) < 2 powi (ilog2 y + 1)" .
  moreover have "(2::rat) powi (ilog2 y + 1) \<le> 2 powi (ilog2 x)" if "ilog2 y + 1 \<le> ilog2 x"
    using that by (intro power_int_increasing) simp_all
  ultimately show ?thesis by fastforce
qed

lemma round_double_alt:
  "x \<noteq> 0 \<Longrightarrow>
   round_double x = of_int (round_half_even (x / 2 powi (exponent x - 52))) * 2 powi (exponent x - 52)"
  by (simp add: round_double_def)

lemma round_double_nonneg: "0 \<le> x \<Longrightarrow> 0 \<le> round_double x"
proof (cases "x = 0")
  case True
  then show ?thesis by (simp add: round_double_def)
next
  case False
  assume "0 \<le> x"
  then have "0 \<le> x / 2 powi (exponent x - 52)" by simp
  then have "0 \<le> \<lfloor>x / 2 powi (exponent x - 52)\<rfloor>" by simp
  with round_half_even_bounds[of "x / 2 powi (exponent x - 52)"]
  have "0 \<le> round_half_even (x / 2 powi (exponent x - 52))" by linarith
  with False show ?thesis by (simp add: round_double_alt)
qed

lemma round_double_nonpos: "x \<le> 0 \<Longrightarrow> round_double x \<le> 0"
proof (cases "x = 0")
  case True
  then show ?thesis by (simp add: round_double_def)
next
  case False
  assume "x \<le> 0"
  then have "x / 2 powi (exponent x - 52) \<le> of_int 0" by (simp add: divide_nonpos_pos)
  then have "round_half_even (x / 2 powi (exponent x - 52)) \<le> round_half_even (of_int 0)"
    by (rule round_half_even_mono)
  then have "round_half_even (x / 2 powi (exponent x - 52)) \<le> 0"
    by (simp only: round_half_even_of_int)
  with False show ?thesis by (simp add: round_double_alt mult_le_0_iff)
qed

lemma binade_top: "(2::rat) powi (e + 1) = of_int (2 ^ 53) * 2 powi (e - 52)"
proof -
  have "(2::rat) powi (e + 1) = 2 powi (53 + (e - 52))"
    by (rule arg_cong[where f = "power_int 2"]) simp
  also have "\<dots> = 2 powi 53 * 2 powi (e - 52)" by (rule power_int_add) simp
  finally show ?thesis by simp
qed

lemma binade_bottom: "(2::rat) powi e = of_int (2 ^ 52) * 2 powi (e - 52)"
proof -
  have "(2::rat) powi e = 2 powi (52 + (e - 52))"
    by (rule arg_cong[where f = "power_int 2"]) simp
  also have "\<dots> = 2 powi 52 * 2 powi (e - 52)" by (rule power_int_add) simp
  finally show ?thesis by simp
qed

text \<open>A positive number is rounded within its binade.\<close>

lemma round_double_upper:
  assumes "0 < x"
  shows "round_double x \<le> 2 powi (exponent x + 1)"
proof -
  let ?u = "(2::rat) powi (exponent x - 52)"
  from assms have nz: "x \<noteq> 0" by simp
  have "x < 2 powi (ilog2 x + 1)" using ilog2_bounds(2)[OF nz] assms by simp
  also have "\<dots> \<le> 2 powi (exponent x + 1)"
    by (intro power_int_increasing) (simp_all add: exponent_def)
  also have "\<dots> = of_int (2 ^ 53) * ?u" by (rule binade_top)
  finally have "x / ?u \<le> of_int (2 ^ 53)" by (simp add: pos_divide_le_eq)
  then have "round_half_even (x / ?u) \<le> round_half_even (of_int (2 ^ 53))"
    by (rule round_half_even_mono)
  then have "round_half_even (x / ?u) \<le> 2 ^ 53" by (simp only: round_half_even_of_int)
  then have "of_int (round_half_even (x / ?u)) * ?u \<le> of_int (2 ^ 53) * ?u"
    by (intro mult_right_mono) (simp_all only: of_int_le_iff, simp)
  also have "\<dots> = 2 powi (exponent x + 1)" by (rule binade_top[symmetric])
  finally show ?thesis using nz by (simp add: round_double_alt)
qed


lemma round_double_lower:
  assumes "0 < x" "- 1022 \<le> ilog2 x"
  shows "2 powi (exponent x) \<le> round_double x"
proof -
  let ?u = "(2::rat) powi (exponent x - 52)"
  from assms have nz: "x \<noteq> 0" by simp
  from assms(2) have e: "exponent x = ilog2 x" by (simp add: exponent_def)
  have "of_int (2 ^ 52) * ?u = 2 powi (exponent x)" by (rule binade_bottom[symmetric])
  also have "\<dots> \<le> x" using ilog2_bounds(1)[OF nz] assms(1) e by simp
  finally have "of_int (2 ^ 52) \<le> x / ?u" by (simp add: pos_le_divide_eq)
  then have "round_half_even (of_int (2 ^ 52)) \<le> round_half_even (x / ?u)"
    by (rule round_half_even_mono)
  then have "2 ^ 52 \<le> round_half_even (x / ?u)" by (simp only: round_half_even_of_int)
  then have "of_int (2 ^ 52) * ?u \<le> of_int (round_half_even (x / ?u)) * ?u"
    by (intro mult_right_mono) (simp_all only: of_int_le_iff, simp)
  then show ?thesis using nz by (simp add: round_double_alt binade_bottom[of "exponent x"])
qed

lemma round_double_mono_pos:
  assumes "0 < x" "x \<le> y"
  shows "round_double x \<le> round_double y"
proof -
  from assms have nz: "x \<noteq> 0" "y \<noteq> 0" and ypos: "0 < y" by simp_all
  from assms have "ilog2 x \<le> ilog2 y" by (intro ilog2_mono) simp_all
  then have le: "exponent x \<le> exponent y" by (simp add: exponent_def)
  show ?thesis
  proof (cases "exponent x = exponent y")
    case True
    let ?u = "(2::rat) powi (exponent y - 52)"
    from assms(2) have "x / ?u \<le> y / ?u" by (simp add: divide_right_mono)
    then have "round_half_even (x / ?u) \<le> round_half_even (y / ?u)"
      by (rule round_half_even_mono)
    then have "of_int (round_half_even (x / ?u)) * ?u \<le> of_int (round_half_even (y / ?u)) * ?u"
      by (intro mult_right_mono) simp_all
    with nz True show ?thesis by (simp add: round_double_alt)
  next
    case False
    with le have lt: "exponent x + 1 \<le> exponent y" by simp
    then have "- 1022 < exponent y" by (simp add: exponent_def)
    then have big: "- 1022 \<le> ilog2 y" by (simp add: exponent_def)
    have "round_double x \<le> 2 powi (exponent x + 1)" using assms(1) by (rule round_double_upper)
    also have "\<dots> \<le> 2 powi (exponent y)" using lt by (intro power_int_increasing) simp_all
    also have "\<dots> \<le> round_double y" using ypos big by (rule round_double_lower)
    finally show ?thesis .
  qed
qed


lemma round_half_even_minus: "round_half_even (- x) = - round_half_even x"
proof (cases "x = of_int \<lfloor>x\<rfloor>")
  case True
  then have pos: "round_half_even x = \<lfloor>x\<rfloor>" by (metis round_half_even_of_int)
  from True have "- x = of_int (- \<lfloor>x\<rfloor>)" by (metis of_int_minus)
  then have "round_half_even (- x) = - \<lfloor>x\<rfloor>" by (metis round_half_even_of_int)
  with pos show ?thesis by simp
next
  case False
  have upper: "x < of_int \<lfloor>x\<rfloor> + 1" by linarith
  from False have strict: "of_int \<lfloor>x\<rfloor> < x" by (metis of_int_floor_le order_less_le)
  have fl: "\<lfloor>- x\<rfloor> = - \<lfloor>x\<rfloor> - 1"
    using strict upper by (intro floor_unique) simp_all
  show ?thesis
    using strict upper by (auto simp: round_half_even_def Let_def fl)
qed

lemma ilog2_minus: "ilog2 (- x) = ilog2 x"
  by (simp add: ilog2_def)

lemma round_double_minus: "round_double (- x) = - round_double x"
  by (simp add: round_double_def exponent_def ilog2_minus round_half_even_minus)

lemma round_double_mono:
  assumes "x \<le> y"
  shows "round_double x \<le> round_double y"
proof -
  consider "0 < x" | "x \<le> 0" "0 \<le> y" | "y < 0" by linarith
  then show ?thesis
  proof cases
    case 1
    then show ?thesis using assms by (rule round_double_mono_pos)
  next
    case 2
    from round_double_nonpos[OF 2(1)] round_double_nonneg[OF 2(2)] show ?thesis by simp
  next
    case 3
    with assms have "0 < - y" "- y \<le> - x" by simp_all
    then have "round_double (- y) \<le> round_double (- x)" by (rule round_double_mono_pos)
    then show ?thesis by (simp add: round_double_minus)
  qed
qed

lemma round_double_million: "round_double 1000000 = 1000000" "round_double (- 1000000) = - 1000000"
  by code_simp+

lemma trunc_mono:
  assumes "s \<le> t"
  shows "trunc s \<le> trunc t"
proof -
  consider "0 \<le> s" | "s < 0" "0 \<le> t" | "t < 0" by linarith
  then show ?thesis
  proof cases
    case 1
    with assms have "0 \<le> t" by simp
    with 1 assms show ?thesis by (simp add: trunc_def floor_mono)
  next
    case 2
    from 2(1) have "0 \<le> \<lfloor>- s\<rfloor>" by simp
    moreover from 2(2) have "0 \<le> \<lfloor>t\<rfloor>" by simp
    ultimately have "- \<lfloor>- s\<rfloor> \<le> \<lfloor>t\<rfloor>" by linarith
    with 2 show ?thesis by (simp add: trunc_def)
  next
    case 3
    with assms have "s < 0" by simp
    moreover from assms have "\<lfloor>- t\<rfloor> \<le> \<lfloor>- s\<rfloor>" by (intro floor_mono) simp
    ultimately show ?thesis using 3 by (simp add: trunc_def)
  qed
qed

lemma fracpart_bounds:
  "s - of_int (trunc s) < 1" "- 1 < s - of_int (trunc s)"
  "0 \<le> s \<Longrightarrow> 0 \<le> s - of_int (trunc s)" "s < 0 \<Longrightarrow> s - of_int (trunc s) \<le> 0"
  unfolding trunc_def by (auto; linarith)+

lemma scaled_upper: "scaled s \<le> of_int (trunc s + 1) * 1000000"
proof -
  have "(s - of_int (trunc s)) * 1000000 \<le> 1000000" using fracpart_bounds(1)[of s] by simp
  then have "round_double ((s - of_int (trunc s)) * 1000000) \<le> round_double 1000000"
    by (rule round_double_mono)
  then show ?thesis by (simp add: scaled_def round_double_million algebra_simps)
qed

lemma scaled_lower: "of_int (trunc s - 1) * 1000000 \<le> scaled s"
proof -
  have "- 1000000 \<le> (s - of_int (trunc s)) * 1000000" using fracpart_bounds(2)[of s] by simp
  then have "round_double (- 1000000) \<le> round_double ((s - of_int (trunc s)) * 1000000)"
    by (rule round_double_mono)
  then show ?thesis by (simp add: scaled_def round_double_million algebra_simps)
qed

lemma scaled_mono:
  assumes "s \<le> t"
  shows "scaled s \<le> scaled t"
proof (cases "trunc s = trunc t")
  case True
  from assms have "(s - of_int (trunc t)) * 1000000 \<le> (t - of_int (trunc t)) * 1000000" by simp
  then have "round_double ((s - of_int (trunc t)) * 1000000) \<le>
             round_double ((t - of_int (trunc t)) * 1000000)"
    by (rule round_double_mono)
  with True show ?thesis by (simp add: scaled_def)
next
  case False
  with trunc_mono[OF assms] have step: "trunc s + 1 \<le> trunc t" by simp
  show ?thesis
  proof (cases "0 \<le> t")
    case True
    have "scaled s \<le> of_int (trunc s + 1) * 1000000" by (rule scaled_upper)
    also have "\<dots> \<le> of_int (trunc t) * 1000000" using step by (simp only: of_int_le_iff mult_le_cancel_right) simp
    also have "\<dots> \<le> scaled t"
      using round_double_nonneg[of "(t - of_int (trunc t)) * 1000000"] fracpart_bounds(3)[OF True]
      by (simp add: scaled_def)
    finally show ?thesis .
  next
    case False
    with assms have neg: "s < 0" "t < 0" by simp_all
    have "scaled s \<le> of_int (trunc s) * 1000000"
      using round_double_nonpos[of "(s - of_int (trunc s)) * 1000000"] fracpart_bounds(4)[OF neg(1)]
      by (simp add: scaled_def mult_le_0_iff)
    also have "\<dots> \<le> of_int (trunc t - 1) * 1000000" using step by (simp only: of_int_le_iff mult_le_cancel_right) simp
    also have "\<dots> \<le> scaled t" by (rule scaled_lower)
    finally show ?thesis .
  qed
qed

lemma to_microseconds_mono: "s \<le> t \<Longrightarrow> to_microseconds s \<le> to_microseconds t"
  by (simp add: to_microseconds_def round_half_even_mono scaled_mono)

lemma timedelta_seconds_microseconds:
  "timedelta_seconds s = Inr td \<Longrightarrow> microseconds td = to_microseconds s"
  by (auto simp: timedelta_seconds_def Let_def split: if_splits)

lemma timedelta_seconds_error: "timedelta_seconds s = Inl e \<Longrightarrow> e = OverflowError"
  by (auto simp: timedelta_seconds_def Let_def split: if_splits)

section \<open>Evaluation on the example inputs\<close>

lemma scenario_min_10:
  "process_segment_with_words 10 scenario_segment 1 = Inr (blocks_min_10, 2)"
  by code_simp

lemma scenario_min_2:
  "process_segment_with_words 2 scenario_segment 1 = Inr (blocks_min_2, 4)"
  by code_simp

lemma scenario_result_min_10:
  "process_transcription 10 scenario_result = Inr (blocks_min_10 @ [flat_block 2])"
  by code_simp

lemma scenario_result_min_2:
  "process_transcription 2 scenario_result = Inr (blocks_min_2 @ [flat_block 4])"
  by code_simp

text \<open>
  C4. The word-level segment with the words ("Hi", 0.0, 0.5), ("there", 0.5, 1.0),
  ("friend", 1.0, 1.6) gives, with \<open>min_chars = 10\<close>, the single block with index 1,
  from 0.0 s to 1.6 s, "Hi there friend"; with \<open>min_chars = 2\<close> it gives the three
  blocks (1, 0.0, 0.5, "Hi"), (2, 0.5, 1.0, "there"), (3, 1.0, 1.6, "friend").
\<close>

theorem scenario_A_and_B:
  "process_transcription 10 \<lparr>segments = Some [scenario_segment]\<rparr> =
     Inr [\<lparr>index = 1, start = Timedelta 0, end' = Timedelta 1600000,
           content = ''Hi there friend''\<rparr>] \<and>
   process_transcription 2 \<lparr>segments = Some [scenario_segment]\<rparr> =
     Inr [\<lparr>index = 1, start = Timedelta 0, end' = Timedelta 500000, content = ''Hi''\<rparr>,
          \<lparr>index = 2, start = Timedelta 500000, end' = Timedelta 1000000,
           content = ''there''\<rparr>,
          \<lparr>index = 3, start = Timedelta 1000000, end' = Timedelta 1600000,
           content = ''friend''\<rparr>]"
  by (simp add: process_transcription_def get_segments_def segment_step_def scenario_segment_def
      scenario_min_10 [unfolded scenario_segment_def]
      scenario_min_2 [unfolded scenario_segment_def] blocks_min_10_def blocks_min_2_def)

section \<open>Index continuity\<close>

lemma indexed_from_snoc:
  "indexed_from i j bs \<Longrightarrow> index b = j \<Longrightarrow> indexed_from i (j + 1) (bs @ [b])"
  by (simp add: indexed_from_def upto_rec2)

lemma word_step_indexed:
  assumes "word_step mc w st = Inr st'" "indexed_from i (cur_index st) (subtitles st)"
  shows "indexed_from i (cur_index st') (subtitles st')"
  using assms
  by (cases rule: word_step_cases) (auto intro!: indexed_from_snoc)

lemma words_loop_indexed:
  "words_loop mc ws st = Inr st' \<Longrightarrow> indexed_from i (cur_index st) (subtitles st)
     \<Longrightarrow> indexed_from i (cur_index st') (subtitles st')"
proof (induction ws arbitrary: st)
  case Nil
  then show ?case by simp
next
  case (Cons w ws)
  then show ?case by (auto split: sum.splits dest: word_step_indexed)
qed

lemma trailing_block_indexed:
  assumes "trailing_block st = Inr (bs, j)" "indexed_from i (cur_index st) (subtitles st)"
  shows "indexed_from i j bs"
  using assms
  by (auto simp: trailing_block_def intro!: indexed_from_snoc
      split: if_splits sum.splits option.splits)

lemma with_words_indexed:
  assumes "process_segment_with_words mc seg i = Inr (bs, j)"
  shows "indexed_from i j bs"
proof -
  from assms obtain ws st where
    "words_loop mc ws (init_state i) = Inr st" "trailing_block st = Inr (bs, j)"
    by (auto simp: process_segment_with_words_def getitem_def split: sum.splits option.splits)
  moreover have "indexed_from i (cur_index (init_state i)) (subtitles (init_state i))"
    by (simp add: init_state_def indexed_from_def)
  ultimately show ?thesis
    using words_loop_indexed trailing_block_indexed by blast
qed

lemma segment_step_indexed:
  assumes "segment_step mc seg i = Inr (bs, j)"
  shows "indexed_from i j bs"
proof (cases "seg_words seg")
  case None
  with assms show ?thesis
    by (auto simp: segment_step_def process_segment_without_words_def indexed_from_def
        split: sum.splits)
next
  case (Some ws)
  with assms show ?thesis by (simp add: segment_step_def with_words_indexed)
qed

lemma indexed_from_append:
  "indexed_from i j bs \<Longrightarrow> indexed_from j k cs \<Longrightarrow> indexed_from i k (bs @ cs)"
  unfolding indexed_from_def
  using upto_split1[of i j "k - 1"] by (cases "j = k") auto

lemma segments_loop_indexed:
  "segments_loop mc segs subs idx = Inr out \<Longrightarrow> indexed_from i idx subs
     \<Longrightarrow> \<exists>k. indexed_from i k out"
proof (induction segs arbitrary: subs idx)
  case Nil
  then show ?case by auto
next
  case (Cons seg segs)
  from Cons.prems(1) obtain bs j where
    step: "segment_step mc seg idx = Inr (bs, j)"
    and rest: "segments_loop mc segs (subs @ bs) j = Inr out"
    by (auto split: sum.splits)
  from step have "indexed_from idx j bs" by (rule segment_step_indexed)
  with Cons.prems(2) have "indexed_from i j (subs @ bs)" by (rule indexed_from_append)
  with rest show ?case by (rule Cons.IH)
qed

text \<open>
  C1. Whenever \<open>process_transcription\<close> returns, the indices of the returned blocks are
  \<open>1, 2, ..., N\<close> in this order, across the segment boundaries.
\<close>

theorem index_continuity:
  assumes "process_transcription min_chars result = Inr bs"
  shows "map index bs = [1..int (length bs)]"
proof -
  have "indexed_from 1 1 []" by (simp add: indexed_from_def)
  with assms obtain k where k: "indexed_from 1 k bs"
    unfolding process_transcription_def using segments_loop_indexed by blast
  then have pos: "1 \<le> k" and m: "map index bs = [1..k - 1]"
    by (simp_all add: indexed_from_def)
  from arg_cong[OF m, of length] have "length bs = nat (k - 1)" by simp
  with pos have "int (length bs) = k - 1" by simp
  with m show ?thesis by simp
qed

theorem index_continuity_witness:
  "process_transcription 2 scenario_result = Inr (blocks_min_2 @ [flat_block 4]) \<and>
   map index (blocks_min_2 @ [flat_block 4]) = [1..int (length (blocks_min_2 @ [flat_block 4]))]"
  using index_continuity [OF scenario_result_min_2] scenario_result_min_2 by simp

section \<open>Words with an empty text\<close>

lemma words_loop_append:
  "words_loop mc (xs @ ys) st =
     (case words_loop mc xs st of Inl e \<Rightarrow> Inl e | Inr st' \<Rightarrow> words_loop mc ys st')"
  by (induction xs arbitrary: st) (auto split: sum.splits)

lemma words_loop_drop_blank:
  "\<not> nonblank w \<Longrightarrow> words_loop mc (xs @ w # ys) st = words_loop mc (xs @ ys) st"
  by (simp add: words_loop_append word_step_blank nonblank_def split: sum.splits)

text \<open>
  C7. A word whose text is empty after \<open>strip()\<close> leaves every local variable of the
  loop as it was (no characters, no start time, no end time), and the segment gives
  the same result, blocks and next index or error, as the segment without that word.
\<close>

theorem empty_word_skipped:
  assumes "strip (get_text (w_text w)) = []"
  shows "word_step min_chars w st = Inr st \<and>
         process_segment_with_words min_chars (seg\<lparr>seg_words := Some (xs @ w # ys)\<rparr>) i =
         process_segment_with_words min_chars (seg\<lparr>seg_words := Some (xs @ ys)\<rparr>) i"
  using assms words_loop_drop_blank[of w min_chars xs ys]
  by (simp add: word_step_blank process_segment_with_words_def getitem_def nonblank_def)

theorem empty_word_skipped_witness:
  "strip (get_text (w_text \<lparr>w_text = Some ''  '', w_start = None, w_end = None\<rparr>)) = [] \<and>
   process_segment_with_words 10
     (scenario_segment\<lparr>seg_words := Some ([hd scenario_words] @
        \<lparr>w_text = Some ''  '', w_start = None, w_end = None\<rparr> # tl scenario_words)\<rparr>) 1 =
   Inr (blocks_min_10, 2)"
proof -
  have blank: "strip (get_text (w_text \<lparr>w_text = Some ''  '', w_start = None, w_end = None\<rparr>)) = []"
    by code_simp
  have same: "[hd scenario_words] @ tl scenario_words = scenario_words"
    by (simp add: scenario_words_def)
  have "scenario_segment\<lparr>seg_words := Some scenario_words\<rparr> = scenario_segment"
    by (simp add: scenario_segment_def)
  with empty_word_skipped [OF blank, where min_chars = 10 and seg = scenario_segment
      and xs = "[hd scenario_words]" and ys = "tl scenario_words" and i = 1]
    blank same scenario_min_10
  show ?thesis by simp
qed

section \<open>The blocks of each segment\<close>

lemma segments_loop_by_segment:
  "segments_loop mc segs subs idx =
     (case blocks_by_segment mc segs idx of
        Inl e \<Rightarrow> Inl e
      | Inr bss \<Rightarrow> Inr (subs @ concat bss))"
  by (induction segs arbitrary: subs idx) (auto split: sum.splits)

lemma process_transcription_by_segment:
  assumes "process_transcription mc r = Inr bs"
  obtains bss where "blocks_by_segment mc (get_segments r) 1 = Inr bss" "concat bss = bs"
  using assms
  by (auto simp: process_transcription_def segments_loop_by_segment split: sum.splits)

lemma blocks_by_segment_all2:
  assumes "blocks_by_segment mc segs idx = Inr bss"
    and "\<And>seg i sb j. segment_step mc seg i = Inr (sb, j) \<Longrightarrow> P seg sb"
  shows "list_all2 P segs bss"
  using assms(1)
proof (induction segs arbitrary: idx bss)
  case Nil
  then show ?case by simp
next
  case (Cons seg segs)
  then show ?case by (auto split: sum.splits intro: assms(2))
qed

lemma with_words_obtain:
  assumes "process_segment_with_words mc seg i = Inr (bs, j)"
  obtains ws st where "seg_words seg = Some ws"
    "words_loop mc ws (init_state i) = Inr st" "trailing_block st = Inr (bs, j)"
  using assms
  by (auto simp: process_segment_with_words_def getitem_def split: sum.splits option.splits)

lemma without_words_content:
  assumes "process_segment_without_words seg i = Inr b"
  shows "content b = strip (get_text (seg_text seg))"
  using assms
  by (auto simp: process_segment_without_words_def split: sum.splits)

section \<open>The length threshold\<close>

lemma word_step_threshold:
  assumes "word_step mc w st = Inr st'"
    "\<forall>b\<in>set (subtitles st). mc \<le> int (length (content b))"
  shows "\<forall>b\<in>set (subtitles st'). mc \<le> int (length (content b))"
  using assms by (cases rule: word_step_cases) auto

lemma words_loop_threshold:
  "words_loop mc ws st = Inr st' \<Longrightarrow>
   \<forall>b\<in>set (subtitles st). mc \<le> int (length (content b)) \<Longrightarrow>
   \<forall>b\<in>set (subtitles st'). mc \<le> int (length (content b))"
proof (induction ws arbitrary: st)
  case Nil
  then show ?case by simp
next
  case (Cons w ws)
  from Cons.prems(1) obtain st1 where
    one: "word_step mc w st = Inr st1" and rest: "words_loop mc ws st1 = Inr st'"
    by (auto split: sum.splits)
  from word_step_threshold[OF one Cons.prems(2)] Cons.IH[OF rest] show ?case by blast
qed

lemma trailing_block_butlast:
  assumes "trailing_block st = Inr (bs, j)"
  shows "set (butlast bs) \<subseteq> set (subtitles st)"
  using assms
  by (auto simp: trailing_block_def butlast_append dest: in_set_butlastD
      split: if_splits sum.splits option.splits)

lemma with_words_threshold:
  assumes "process_segment_with_words mc seg i = Inr (bs, j)"
  shows "\<forall>b\<in>set (butlast bs). mc \<le> int (length (content b))"
proof -
  from assms obtain ws st where
    loop: "words_loop mc ws (init_state i) = Inr st" and tr: "trailing_block st = Inr (bs, j)"
    by (rule with_words_obtain)
  have "\<forall>b\<in>set (subtitles (init_state i)). mc \<le> int (length (content b))"
    by (simp add: init_state_def)
  with loop have "\<forall>b\<in>set (subtitles st). mc \<le> int (length (content b))"
    by (rule words_loop_threshold)
  with trailing_block_butlast[OF tr] show ?thesis by blast
qed

text \<open>
  C2, as the code has it. The returned list is the concatenation, in segment order, of
  the blocks of each segment, and among the blocks of a word-level segment every one
  but the last has a content of at least \<open>min_chars\<close> characters. The block of a flat
  segment has no minimum length.
\<close>

theorem threshold_in_word_segments:
  assumes "process_transcription min_chars result = Inr bs"
  shows "\<exists>bss. blocks_by_segment min_chars (get_segments result) 1 = Inr bss \<and>
           concat bss = bs \<and>
           list_all2 (\<lambda>seg sb. seg_words seg \<noteq> None \<longrightarrow>
                        (\<forall>b\<in>set (butlast sb). min_chars \<le> int (length (content b))))
             (get_segments result) bss"
proof -
  from assms obtain bss where
    bss: "blocks_by_segment min_chars (get_segments result) 1 = Inr bss" "concat bss = bs"
    by (rule process_transcription_by_segment)
  have "list_all2 (\<lambda>seg sb. seg_words seg \<noteq> None \<longrightarrow>
                        (\<forall>b\<in>set (butlast sb). min_chars \<le> int (length (content b))))
             (get_segments result) bss"
    using bss(1)
  proof (rule blocks_by_segment_all2)
    fix seg i sb j
    assume "segment_step min_chars seg i = Inr (sb, j)"
    then show "seg_words seg \<noteq> None \<longrightarrow>
                 (\<forall>b\<in>set (butlast sb). min_chars \<le> int (length (content b)))"
      by (auto simp: segment_step_def dest: with_words_threshold split: if_splits)
  qed
  with bss show ?thesis by blast
qed

lemma scenario_result_min_8:
  "process_transcription 8 scenario_result = Inr (blocks_min_8 @ [flat_block 3])"
  by code_simp

lemma scenario_by_segment_min_8:
  "blocks_by_segment 8 (get_segments scenario_result) 1 = Inr [blocks_min_8, [flat_block 3]]"
  by code_simp

theorem threshold_in_word_segments_witness:
  "process_transcription 8 scenario_result = Inr (blocks_min_8 @ [flat_block 3]) \<and>
   blocks_by_segment 8 (get_segments scenario_result) 1 = Inr [blocks_min_8, [flat_block 3]] \<and>
   list_all (\<lambda>b. 8 \<le> int (length (content b))) (butlast blocks_min_8)"
  using threshold_in_word_segments [OF scenario_result_min_8]
    scenario_result_min_8 scenario_by_segment_min_8
  by (simp add: get_segments_def scenario_result_def scenario_segment_def list_all_iff)

text \<open>
  The claim as stated fails on a flat segment: with \<open>min_chars = 20\<close> the block of
  the flat segment " Hello world " has 11 characters, and it is not the last block of
  a word-level segment.
\<close>

theorem threshold_counterexample:
  "process_transcription 20 \<lparr>segments = Some [flat_segment]\<rparr> = Inr [flat_block 1] \<and>
   seg_words flat_segment = None \<and>
   int (length (content (flat_block 1))) < 20"
  by code_simp

section \<open>Contents that are not empty\<close>

lemma word_step_content:
  assumes "word_step mc w st = Inr st'" "\<forall>b\<in>set (subtitles st). content b \<noteq> []"
  shows "\<forall>b\<in>set (subtitles st'). content b \<noteq> []"
  using assms by (cases rule: word_step_cases) (auto simp: joined_text_nonempty)

lemma words_loop_content:
  "words_loop mc ws st = Inr st' \<Longrightarrow> \<forall>b\<in>set (subtitles st). content b \<noteq> [] \<Longrightarrow>
   \<forall>b\<in>set (subtitles st'). content b \<noteq> []"
proof (induction ws arbitrary: st)
  case Nil
  then show ?case by simp
next
  case (Cons w ws)
  from Cons.prems(1) obtain st1 where
    one: "word_step mc w st = Inr st1" and rest: "words_loop mc ws st1 = Inr st'"
    by (auto split: sum.splits)
  from word_step_content[OF one Cons.prems(2)] Cons.IH[OF rest] show ?case by blast
qed

lemma with_words_content:
  assumes "process_segment_with_words mc seg i = Inr (bs, j)"
  shows "\<forall>b\<in>set bs. content b \<noteq> []"
proof -
  from assms obtain ws st where
    loop: "words_loop mc ws (init_state i) = Inr st" and tr: "trailing_block st = Inr (bs, j)"
    by (rule with_words_obtain)
  have "\<forall>b\<in>set (subtitles (init_state i)). content b \<noteq> []"
    by (simp add: init_state_def)
  with loop have "\<forall>b\<in>set (subtitles st). content b \<noteq> []"
    by (rule words_loop_content)
  with tr show ?thesis
    by (auto simp: trailing_block_def split: if_splits sum.splits option.splits)
qed

text \<open>
  C6, as the code has it. Every block of a word-level segment has a content that is
  not empty. A flat segment gives exactly one block, whose content is the text of the
  segment after \<open>strip()\<close>, empty when that text is blank or absent.
\<close>

theorem content_nonempty_in_word_segments:
  assumes "process_transcription min_chars result = Inr bs"
  shows "\<exists>bss. blocks_by_segment min_chars (get_segments result) 1 = Inr bss \<and>
           concat bss = bs \<and>
           list_all2 (\<lambda>seg sb. if seg_words seg \<noteq> None then \<forall>b\<in>set sb. content b \<noteq> []
                        else \<exists>b. sb = [b] \<and> content b = strip (get_text (seg_text seg)))
             (get_segments result) bss"
proof -
  from assms obtain bss where
    bss: "blocks_by_segment min_chars (get_segments result) 1 = Inr bss" "concat bss = bs"
    by (rule process_transcription_by_segment)
  have "list_all2 (\<lambda>seg sb. if seg_words seg \<noteq> None then \<forall>b\<in>set sb. content b \<noteq> []
                        else \<exists>b. sb = [b] \<and> content b = strip (get_text (seg_text seg)))
             (get_segments result) bss"
    using bss(1)
  proof (rule blocks_by_segment_all2)
    fix seg i sb j
    assume "segment_step min_chars seg i = Inr (sb, j)"
    then show "if seg_words seg \<noteq> None then \<forall>b\<in>set sb. content b \<noteq> []
                        else \<exists>b. sb = [b] \<and> content b = strip (get_text (seg_text seg))"
      by (auto simp: segment_step_def dest: with_words_content without_words_content
          split: if_splits sum.splits)
  qed
  with bss show ?thesis by blast
qed

lemma scenario_by_segment_min_10:
  "blocks_by_segment 10 (get_segments scenario_result) 1 = Inr [blocks_min_10, [flat_block 2]]"
  by code_simp

theorem content_nonempty_in_word_segments_witness:
  "process_transcription 10 scenario_result = Inr (blocks_min_10 @ [flat_block 2]) \<and>
   blocks_by_segment 10 (get_segments scenario_result) 1 =
     Inr [blocks_min_10, [flat_block 2]] \<and>
   list_all (\<lambda>b. content b \<noteq> []) blocks_min_10 \<and>
   content (flat_block 2) = strip (get_text (seg_text flat_segment))"
  using content_nonempty_in_word_segments [OF scenario_result_min_10]
    scenario_result_min_10 scenario_by_segment_min_10
  by (simp add: get_segments_def scenario_result_def scenario_segment_def flat_segment_def
      list_all_iff)

text \<open>
  The claim as stated fails on a flat segment whose text is blank: its block has an
  empty content.
\<close>

theorem content_nonempty_counterexample:
  "process_transcription 10 \<lparr>segments = Some [blank_flat_segment]\<rparr> =
     Inr [\<lparr>index = 1, start = Timedelta 0, end' = Timedelta 1000000, content = []\<rparr>]"
  by code_simp

section \<open>Dispatch on the key \<open>words\<close>\<close>

lemma words_loop_all_blank:
  "\<forall>w\<in>set ws. \<not> nonblank w \<Longrightarrow> words_loop mc ws st = Inr st"
  by (induction ws) (simp_all add: word_step_blank nonblank_def)

lemma with_words_all_blank:
  assumes "seg_words seg = Some ws" "\<forall>w\<in>set ws. \<not> nonblank w"
  shows "process_segment_with_words mc seg i = Inr ([], i)"
  using assms
  by (simp add: process_segment_with_words_def getitem_def words_loop_all_blank
      trailing_block_def init_state_def)

lemma segments_loop_skip:
  assumes "\<And>i. segment_step mc seg i = Inr ([], i)"
  shows "segments_loop mc (pre @ seg # post) subs idx = segments_loop mc (pre @ post) subs idx"
  by (induction pre arbitrary: subs idx) (auto simp: assms split: sum.splits)

text \<open>
  C9. A segment with the key \<open>words\<close> takes the word path whatever the list holds,
  and its own \<open>start\<close>, \<open>end\<close> and \<open>text\<close> do not matter. When the list is empty
  or holds blank words only, the segment gives no block and leaves the running index
  as it was: the result is that of the same input without this segment.
\<close>

theorem dispatch_on_words_key:
  assumes "seg_words seg = Some ws"
  shows "segment_step min_chars seg i = process_segment_with_words min_chars seg i \<and>
         segment_step min_chars (seg\<lparr>seg_start := a, seg_end := b, seg_text := c\<rparr>) i =
           segment_step min_chars seg i \<and>
         ((\<forall>w\<in>set ws. \<not> nonblank w) \<longrightarrow>
            segment_step min_chars seg i = Inr ([], i) \<and>
            process_transcription min_chars \<lparr>segments = Some (pre @ seg # post)\<rparr> =
              process_transcription min_chars \<lparr>segments = Some (pre @ post)\<rparr>)"
proof (intro conjI impI)
  show disp: "segment_step min_chars seg i = process_segment_with_words min_chars seg i"
    using assms by (simp add: segment_step_def)
  show "segment_step min_chars (seg\<lparr>seg_start := a, seg_end := b, seg_text := c\<rparr>) i =
           segment_step min_chars seg i"
    using assms by (simp add: segment_step_def process_segment_with_words_def)
  assume blank: "\<forall>w\<in>set ws. \<not> nonblank w"
  have none: "segment_step min_chars seg k = Inr ([], k)" for k
    using assms blank by (simp add: segment_step_def with_words_all_blank)
  then show "segment_step min_chars seg i = Inr ([], i)" .
  from none show "process_transcription min_chars \<lparr>segments = Some (pre @ seg # post)\<rparr> =
              process_transcription min_chars \<lparr>segments = Some (pre @ post)\<rparr>"
    by (simp add: process_transcription_def get_segments_def segments_loop_skip)
qed

lemma silent_segment_blank: "list_all (\<lambda>w. \<not> nonblank w) [blank_word]"
  by code_simp

theorem dispatch_on_words_key_witness:
  "seg_words silent_segment = Some [blank_word] \<and>
   list_all (\<lambda>w. \<not> nonblank w) [blank_word] \<and>
   segment_step 10 silent_segment 5 = Inr ([], 5) \<and>
   process_transcription 10
     \<lparr>segments = Some ([scenario_segment] @ silent_segment # [flat_segment])\<rparr> =
   Inr (blocks_min_10 @ [flat_block 2])"
proof -
  have words: "seg_words silent_segment = Some [blank_word]"
    by (simp add: silent_segment_def)
  have same: "\<lparr>segments = Some ([scenario_segment] @ [flat_segment])\<rparr> = scenario_result"
    by (simp add: scenario_result_def)
  note d = dispatch_on_words_key [OF words, where min_chars = 10 and i = 5
      and pre = "[scenario_segment]" and post = "[flat_segment]"
      and a = None and b = None and c = None]
  from d silent_segment_blank [unfolded list_all_iff]
  have step: "segment_step 10 silent_segment 5 = Inr ([], 5)"
    by blast
  from d silent_segment_blank [unfolded list_all_iff]
  have "process_transcription 10
          \<lparr>segments = Some ([scenario_segment] @ silent_segment # [flat_segment])\<rparr> =
        process_transcription 10 \<lparr>segments = Some ([scenario_segment] @ [flat_segment])\<rparr>"
    by blast
  with same scenario_result_min_10
  have "process_transcription 10
          \<lparr>segments = Some ([scenario_segment] @ silent_segment # [flat_segment])\<rparr> =
        Inr (blocks_min_10 @ [flat_block 2])"
    by (simp only:)
  with words silent_segment_blank step show ?thesis by (intro conjI)
qed

section \<open>No text is lost\<close>

lemma isspace_space: "isspace CHR '' ''"
  by (simp add: isspace_def)

lemma split_from_space:
  "isspace c \<Longrightarrow> split_from cur (a @ c # b) = split_from cur a @ split_from [] b"
  by (induction a arbitrary: cur) auto

lemma split_from_trailing:
  "\<forall>c\<in>set ws. isspace c \<Longrightarrow> split_from cur (s @ ws) = split_from cur s"
proof (induction s arbitrary: cur)
  case Nil
  then show ?case by (induction ws arbitrary: cur) auto
next
  case (Cons c s)
  then show ?case by simp
qed

lemma split_from_leading: "split_from [] (dropWhile isspace s) = split_from [] s"
  by (induction s) auto

lemma strip_decompose:
  "\<exists>ws. (\<forall>c\<in>set ws. isspace c) \<and> dropWhile isspace s = strip s @ ws"
proof -
  let ?t = "dropWhile isspace s"
  have "rev (dropWhile isspace (rev ?t)) @ rev (takeWhile isspace (rev ?t)) =
        rev (takeWhile isspace (rev ?t) @ dropWhile isspace (rev ?t))"
    by (simp only: rev_append)
  also have "\<dots> = ?t"
    by (simp only: takeWhile_dropWhile_id rev_rev_ident)
  finally have "?t = strip s @ rev (takeWhile isspace (rev ?t))"
    unfolding strip_def by (rule sym)
  moreover have "\<forall>c\<in>set (rev (takeWhile isspace (rev ?t))). isspace c"
    by (auto dest: set_takeWhileD)
  ultimately show ?thesis by blast
qed

lemma split_ws_strip: "split_ws (strip s) = split_ws s"
proof -
  from strip_decompose obtain ws where
    ws: "\<forall>c\<in>set ws. isspace c" and eq: "dropWhile isspace s = strip s @ ws"
    by blast
  have "split_ws (strip s) = split_from [] (strip s @ ws)"
    using ws by (simp add: split_ws_def split_from_trailing)
  also have "\<dots> = split_from [] (dropWhile isspace s)" by (simp add: eq)
  also have "\<dots> = split_ws s" by (simp add: split_ws_def split_from_leading)
  finally show ?thesis .
qed

lemma split_ws_Nil: "split_ws [] = []"
  by (simp add: split_ws_def)

lemma split_ws_join: "split_ws (join_space xs) = concat (map split_ws xs)"
proof (induction xs rule: join_space.induct)
  case 1
  show ?case by (simp add: split_ws_def)
next
  case (2 x)
  show ?case by simp
next
  case (3 x y zs)
  have "split_ws (join_space (x # y # zs)) = split_ws x @ split_ws (join_space (y # zs))"
    using split_from_space[OF isspace_space, of "[]" x] by (simp add: split_ws_def)
  with 3 show ?case by simp
qed

lemma split_ws_joined_text:
  "split_ws (joined_text st w) = split_ws (accumulated_text st) @ split_ws (get_text (w_text w))"
proof (cases "accumulated_text st = []")
  case True
  then show ?thesis by (simp add: joined_text_def join_word_def split_ws_strip split_ws_Nil)
next
  case False
  have "split_ws (accumulated_text st @ CHR '' '' # strip (get_text (w_text w))) =
        split_ws (accumulated_text st) @ split_ws (strip (get_text (w_text w)))"
    unfolding split_ws_def using isspace_space by (rule split_from_space)
  with False show ?thesis by (simp add: joined_text_def join_word_def split_ws_strip)
qed

lemma split_ws_blank: "\<not> nonblank w \<Longrightarrow> split_ws (get_text (w_text w)) = []"
  using split_ws_strip[of "get_text (w_text w)"] by (simp add: nonblank_def split_ws_Nil)

lemma word_step_tokens:
  assumes "word_step mc w st = Inr st'"
  shows "state_tokens st' = state_tokens st @ split_ws (get_text (w_text w))"
  using assms
proof (cases rule: word_step_cases)
  case blank
  then show ?thesis by (simp add: split_ws_blank)
next
  case (keep e)
  then show ?thesis by (simp add: state_tokens_def split_ws_joined_text)
next
  case (flush s e sd ed)
  then show ?thesis by (simp add: state_tokens_def split_ws_joined_text split_ws_Nil)
qed

lemma words_loop_tokens:
  "words_loop mc ws st = Inr st' \<Longrightarrow>
   state_tokens st' = state_tokens st @ concat (map (\<lambda>w. split_ws (get_text (w_text w))) ws)"
proof (induction ws arbitrary: st)
  case Nil
  then show ?case by simp
next
  case (Cons w ws)
  from Cons.prems obtain st1 where
    one: "word_step mc w st = Inr st1" and rest: "words_loop mc ws st1 = Inr st'"
    by (auto split: sum.splits)
  from word_step_tokens[OF one] Cons.IH[OF rest] show ?case by simp
qed

lemma trailing_block_tokens:
  assumes "trailing_block st = Inr (bs, j)"
  shows "concat (map (\<lambda>b. split_ws (content b)) bs) = state_tokens st"
  using assms
  by (auto simp: trailing_block_def state_tokens_def split_ws_Nil
      split: if_splits sum.splits option.splits)

lemma tokens_filter_nonblank:
  "concat (map (split_ws \<circ> (\<lambda>w. get_text (w_text w))) (filter nonblank ws)) =
   concat (map (\<lambda>w. split_ws (get_text (w_text w))) ws)"
  by (induction ws) (simp_all add: split_ws_blank)

lemma segment_step_tokens:
  assumes "segment_step mc seg i = Inr (sb, j)"
  shows "concat (map (\<lambda>b. split_ws (content b)) sb) = concat (map split_ws (segment_texts seg))"
proof (cases "seg_words seg")
  case None
  with assms show ?thesis
    by (auto simp: segment_step_def segment_texts_def split_ws_strip
        dest!: without_words_content split: sum.splits)
next
  case (Some ws)
  with assms have "process_segment_with_words mc seg i = Inr (sb, j)"
    by (simp add: segment_step_def)
  then obtain ws' st where
    "seg_words seg = Some ws'" and
    loop: "words_loop mc ws' (init_state i) = Inr st" and tr: "trailing_block st = Inr (sb, j)"
    by (rule with_words_obtain)
  with Some have ws: "ws' = ws" by simp
  have "state_tokens (init_state i) = []"
    by (simp add: state_tokens_def init_state_def split_ws_Nil)
  with words_loop_tokens[OF loop] trailing_block_tokens[OF tr] ws Some
  show ?thesis by (simp add: segment_texts_def tokens_filter_nonblank)
qed

lemma blocks_by_segment_tokens:
  "blocks_by_segment mc segs idx = Inr bss \<Longrightarrow>
   concat (map (\<lambda>b. split_ws (content b)) (concat bss)) =
   concat (map split_ws (concat (map segment_texts segs)))"
proof (induction segs arbitrary: idx bss)
  case Nil
  then show ?case by simp
next
  case (Cons seg segs)
  from Cons.prems obtain sb j rest where
    step: "segment_step mc seg idx = Inr (sb, j)"
    and tail: "blocks_by_segment mc segs j = Inr rest" and bss: "bss = sb # rest"
    by (auto split: sum.splits)
  from segment_step_tokens[OF step] Cons.IH[OF tail] bss show ?case by simp
qed

lemma concat_split_from: "concat (split_from cur s) = cur @ filter (\<lambda>c. \<not> isspace c) s"
  by (induction s arbitrary: cur) auto

lemma concat_split_ws: "concat (split_ws s) = filter (\<lambda>c. \<not> isspace c) s"
  by (simp add: split_ws_def concat_split_from)

lemma filter_join_space:
  "filter (\<lambda>c. \<not> isspace c) (join_space xs) = filter (\<lambda>c. \<not> isspace c) (concat xs)"
  by (induction xs rule: join_space.induct) (simp_all add: isspace_space)

text \<open>
  C3. Whenever \<open>process_transcription\<close> returns, the contents of the blocks, joined
  with single spaces, hold the same words in the same order as the texts of the input
  (the words that are not blank of word-level segments, the text of flat segments);
  so both normalise to the same text, and they hold the same characters that are not
  whitespace in the same order.
\<close>

theorem content_non_loss:
  assumes "process_transcription min_chars result = Inr bs"
  shows "split_ws (join_space (map content bs)) = concat (map split_ws (source_texts result)) \<and>
         normalize_ws (join_space (map content bs)) =
           normalize_ws (join_space (source_texts result)) \<and>
         filter (\<lambda>c. \<not> isspace c) (join_space (map content bs)) =
           filter (\<lambda>c. \<not> isspace c) (concat (source_texts result))"
proof -
  from assms obtain bss where
    bss: "blocks_by_segment min_chars (get_segments result) 1 = Inr bss" "concat bss = bs"
    by (rule process_transcription_by_segment)
  have "split_ws (join_space (map content bs)) = concat (map (\<lambda>b. split_ws (content b)) bs)"
    by (simp add: split_ws_join comp_def)
  also have "\<dots> = concat (map split_ws (source_texts result))"
    using blocks_by_segment_tokens[OF bss(1)] bss(2) by (simp add: source_texts_def)
  finally have tokens:
    "split_ws (join_space (map content bs)) = concat (map split_ws (source_texts result))" .
  then have same: "split_ws (join_space (map content bs)) =
      split_ws (join_space (source_texts result))"
    by (simp add: split_ws_join)
  then have "concat (split_ws (join_space (map content bs))) =
      concat (split_ws (join_space (source_texts result)))"
    by simp
  then have "filter (\<lambda>c. \<not> isspace c) (join_space (map content bs)) =
           filter (\<lambda>c. \<not> isspace c) (concat (source_texts result))"
    by (simp add: concat_split_ws filter_join_space)
  with tokens same show ?thesis by (simp add: normalize_ws_def)
qed

lemma scenario_source_normalised:
  "normalize_ws (join_space (source_texts scenario_result)) = ''Hi there friend Hello world''"
  by code_simp

theorem content_non_loss_witness:
  "process_transcription 10 scenario_result = Inr (blocks_min_10 @ [flat_block 2]) \<and>
   normalize_ws (join_space (map content (blocks_min_10 @ [flat_block 2]))) =
     ''Hi there friend Hello world''"
  using content_non_loss [OF scenario_result_min_10] scenario_result_min_10
    scenario_source_normalised
  by simp

section \<open>The accumulator and the recorded times\<close>

lemma word_step_start_inv:
  assumes "word_step mc w st = Inr st'" "start_inv st" "start_numeric w"
  shows "start_inv st'"
  using assms(1)
proof (cases rule: word_step_cases)
  case blank
  with assms show ?thesis by simp
next
  case (keep e)
  with assms(2,3) show ?thesis
    by (auto simp: start_inv_def start_numeric_def block_start_def held_def
        joined_text_nonempty split: option.splits)
next
  case (flush s e sd ed)
  then show ?thesis by (simp add: start_inv_def)
qed

lemma words_loop_start_inv:
  "words_loop mc ws st = Inr st' \<Longrightarrow> start_inv st \<Longrightarrow> list_all start_numeric ws \<Longrightarrow>
   start_inv st'"
proof (induction ws arbitrary: st)
  case Nil
  then show ?case by simp
next
  case (Cons w ws)
  from Cons.prems(1) obtain st1 where
    one: "word_step mc w st = Inr st1" and rest: "words_loop mc ws st1 = Inr st'"
    by (auto split: sum.splits)
  from Cons.prems(2,3) have "start_inv st1" by (auto intro: word_step_start_inv[OF one])
  with Cons.IH[OF rest] Cons.prems(3) show ?case by simp
qed

lemma start_inv_init: "start_inv (init_state i)"
  by (simp add: start_inv_def init_state_def)

lemma word_step_timing_inv:
  assumes "word_step mc w st = Inr st'" "timing_inv st" "times_numeric w"
  shows "timing_inv st'"
  using assms(1)
proof (cases rule: word_step_cases)
  case blank
  with assms show ?thesis by simp
next
  case (keep e)
  with assms(2,3) show ?thesis
    by (auto simp: timing_inv_def times_numeric_def block_start_def held_def
        joined_text_nonempty split: option.splits)
next
  case (flush s e sd ed)
  then show ?thesis by (simp add: timing_inv_def)
qed

lemma words_loop_timing_inv:
  "words_loop mc ws st = Inr st' \<Longrightarrow> timing_inv st \<Longrightarrow> list_all times_numeric ws \<Longrightarrow>
   timing_inv st'"
proof (induction ws arbitrary: st)
  case Nil
  then show ?case by simp
next
  case (Cons w ws)
  from Cons.prems(1) obtain st1 where
    one: "word_step mc w st = Inr st1" and rest: "words_loop mc ws st1 = Inr st'"
    by (auto split: sum.splits)
  from Cons.prems(2,3) have "timing_inv st1" by (auto intro: word_step_timing_inv[OF one])
  with Cons.IH[OF rest] Cons.prems(3) show ?case by simp
qed

lemma timing_inv_init: "timing_inv (init_state i)"
  by (simp add: timing_inv_def init_state_def)

lemma word_step_start_origin:
  assumes "word_step mc w st = Inr st'" "start_time st' = Some s"
  shows "start_time st = Some s \<or> (nonblank w \<and> w_start w = Some (Some s))"
  using assms
  by (cases rule: word_step_cases)
    (auto simp: block_start_def held_def split: if_splits option.splits)

lemma word_step_end_origin:
  assumes "word_step mc w st = Inr st'" "end_time st' = Some t"
  shows "end_time st = Some t \<or> (nonblank w \<and> w_end w = Some (Some t))"
  using assms
  by (cases rule: word_step_cases) auto

lemma words_loop_start_origin:
  "words_loop mc ws st = Inr st' \<Longrightarrow> start_time st' = Some s
     \<Longrightarrow> start_time st = Some s \<or> (\<exists>w\<in>set ws. nonblank w \<and> w_start w = Some (Some s))"
proof (induction ws arbitrary: st)
  case Nil
  then show ?case by simp
next
  case (Cons w ws)
  from Cons.prems(1) obtain st1 where
    one: "word_step mc w st = Inr st1" and rest: "words_loop mc ws st1 = Inr st'"
    by (auto split: sum.splits)
  from Cons.IH[OF rest Cons.prems(2)] word_step_start_origin[OF one]
  show ?case by auto
qed

lemma words_loop_end_origin:
  "words_loop mc ws st = Inr st' \<Longrightarrow> end_time st' = Some t
     \<Longrightarrow> end_time st = Some t \<or> (\<exists>w\<in>set ws. nonblank w \<and> w_end w = Some (Some t))"
proof (induction ws arbitrary: st)
  case Nil
  then show ?case by simp
next
  case (Cons w ws)
  from Cons.prems(1) obtain st1 where
    one: "word_step mc w st = Inr st1" and rest: "words_loop mc ws st1 = Inr st'"
    by (auto split: sum.splits)
  from Cons.IH[OF rest Cons.prems(2)] word_step_end_origin[OF one]
  show ?case by auto
qed

lemma trailing_block_recorded:
  assumes "trailing_block st = Inr (bs, j)" "accumulated_text st \<noteq> []"
    "start_time st = Some s" "end_time st = Some t"
  shows "\<exists>b. bs = subtitles st @ [b] \<and> content b = accumulated_text st \<and>
           timedelta_seconds s = Inr (start b) \<and> timedelta_seconds t = Inr (end' b)"
  using assms by (auto simp: trailing_block_def split: sum.splits)

lemma list_all_take: "list_all P xs \<Longrightarrow> list_all P (take k xs)"
  by (auto simp: list_all_iff dest: in_set_takeD)

text \<open>
  C10, as the code has it. For a word-level segment whose words that are not blank
  hold numbers under \<open>start\<close> and \<open>end\<close> where these keys are there: after any
  number \<open>k\<close> of iterations of the word loop, the accumulator is not empty exactly when
  a start time is recorded, and then an end time is recorded too, so the trailing
  block does not take the \<open>timedelta(0)\<close> fallback; and when the segment ends on a
  trailing block, this block is the last one returned, its content is the
  accumulator, and its start and end are \<open>timedelta(seconds=...)\<close> of the \<open>start\<close> of a
  word and of the \<open>end\<close> of a word of the segment.
\<close>

theorem accumulator_timing_invariant:
  assumes "seg_words seg = Some ws" "list_all times_numeric ws"
  shows "(\<forall>k st. words_loop min_chars (take k ws) (init_state i) = Inr st \<longrightarrow>
            (accumulated_text st \<noteq> [] \<longleftrightarrow> start_time st \<noteq> None) \<and>
            (start_time st \<noteq> None \<longrightarrow> end_time st \<noteq> None) \<and>
            \<not> uses_fallback st) \<and>
         (\<forall>st bs j. words_loop min_chars ws (init_state i) = Inr st \<and>
            accumulated_text st \<noteq> [] \<and>
            process_segment_with_words min_chars seg i = Inr (bs, j) \<longrightarrow>
            (\<exists>b. bs = subtitles st @ [b] \<and> content b = accumulated_text st \<and>
               (\<exists>w\<in>set ws. \<exists>s. nonblank w \<and> w_start w = Some (Some s) \<and>
                   timedelta_seconds s = Inr (start b)) \<and>
               (\<exists>w\<in>set ws. \<exists>t. nonblank w \<and> w_end w = Some (Some t) \<and>
                   timedelta_seconds t = Inr (end' b))))"
proof -
  have first: "(accumulated_text st \<noteq> [] \<longleftrightarrow> start_time st \<noteq> None) \<and>
            (start_time st \<noteq> None \<longrightarrow> end_time st \<noteq> None) \<and>
            \<not> uses_fallback st"
    if run: "words_loop min_chars (take k ws) (init_state i) = Inr st" for k st
  proof -
    from assms(2) have "list_all times_numeric (take k ws)" by (rule list_all_take)
    with run timing_inv_init have "timing_inv st" by (rule words_loop_timing_inv)
    then show ?thesis by (auto simp: timing_inv_def uses_fallback_def)
  qed
  have second: "\<exists>b. bs = subtitles st @ [b] \<and> content b = accumulated_text st \<and>
               (\<exists>w\<in>set ws. \<exists>s. nonblank w \<and> w_start w = Some (Some s) \<and>
                   timedelta_seconds s = Inr (start b)) \<and>
               (\<exists>w\<in>set ws. \<exists>t. nonblank w \<and> w_end w = Some (Some t) \<and>
                   timedelta_seconds t = Inr (end' b))"
    if run: "words_loop min_chars ws (init_state i) = Inr st"
      and acc: "accumulated_text st \<noteq> []"
      and ret: "process_segment_with_words min_chars seg i = Inr (bs, j)" for st bs j
  proof -
    from run ret assms(1) have tr: "trailing_block st = Inr (bs, j)"
      by (simp add: process_segment_with_words_def getitem_def)
    from run timing_inv_init assms(2) have "timing_inv st" by (rule words_loop_timing_inv)
    with acc obtain s t where s: "start_time st = Some s" and t: "end_time st = Some t"
      by (auto simp: timing_inv_def)
    from words_loop_start_origin[OF run s]
    obtain w where w: "w \<in> set ws" "nonblank w" "w_start w = Some (Some s)"
      by (auto simp: init_state_def)
    from words_loop_end_origin[OF run t]
    obtain w' where w': "w' \<in> set ws" "nonblank w'" "w_end w' = Some (Some t)"
      by (auto simp: init_state_def)
    from trailing_block_recorded[OF tr acc s t] obtain b where
      b: "bs = subtitles st @ [b]" "content b = accumulated_text st"
        "timedelta_seconds s = Inr (start b)" "timedelta_seconds t = Inr (end' b)"
      by blast
    from b w w' show ?thesis by blast
  qed
  from first second show ?thesis by blast
qed

lemma scenario_words_key: "seg_words scenario_segment = Some scenario_words"
  by (simp add: scenario_segment_def)

lemma scenario_times_numeric: "list_all times_numeric scenario_words"
  by code_simp

lemma scenario_first_word:
  "words_loop 8 (take 1 scenario_words) (init_state 1) = Inr state_first_word"
  by code_simp

lemma scenario_loop_min_8: "words_loop 8 scenario_words (init_state 1) = Inr state_min_8"
  by code_simp

lemma scenario_min_8:
  "process_segment_with_words 8 scenario_segment 1 = Inr (blocks_min_8, 3)"
  by code_simp

theorem accumulator_timing_invariant_witness:
  "seg_words scenario_segment = Some scenario_words \<and>
   list_all times_numeric scenario_words \<and>
   words_loop 8 (take 1 scenario_words) (init_state 1) = Inr state_first_word \<and>
   \<not> uses_fallback state_first_word \<and>
   words_loop 8 scenario_words (init_state 1) = Inr state_min_8 \<and>
   accumulated_text state_min_8 \<noteq> [] \<and>
   process_segment_with_words 8 scenario_segment 1 = Inr (blocks_min_8, 3) \<and>
   (\<exists>b. blocks_min_8 = subtitles state_min_8 @ [b] \<and>
      content b = accumulated_text state_min_8 \<and>
      (\<exists>w\<in>set scenario_words. \<exists>s. nonblank w \<and> w_start w = Some (Some s) \<and>
          timedelta_seconds s = Inr (start b)) \<and>
      (\<exists>w\<in>set scenario_words. \<exists>t. nonblank w \<and> w_end w = Some (Some t) \<and>
          timedelta_seconds t = Inr (end' b)))"
proof -
  note inv = accumulator_timing_invariant [OF scenario_words_key scenario_times_numeric,
      where min_chars = 8 and i = 1]
  have acc: "accumulated_text state_min_8 \<noteq> []" by (simp add: state_min_8_def)
  from inv scenario_first_word have "\<not> uses_fallback state_first_word" by blast
  moreover from inv scenario_loop_min_8 acc scenario_min_8
  have "\<exists>b. blocks_min_8 = subtitles state_min_8 @ [b] \<and>
      content b = accumulated_text state_min_8 \<and>
      (\<exists>w\<in>set scenario_words. \<exists>s. nonblank w \<and> w_start w = Some (Some s) \<and>
          timedelta_seconds s = Inr (start b)) \<and>
      (\<exists>w\<in>set scenario_words. \<exists>t. nonblank w \<and> w_end w = Some (Some t) \<and>
          timedelta_seconds t = Inr (end' b))"
    by blast
  ultimately show ?thesis
    using scenario_words_key scenario_times_numeric scenario_first_word scenario_loop_min_8
      acc scenario_min_8
    by (intro conjI)
qed

text \<open>
  The claim as stated fails when a key holds \<open>None\<close>: for the single word with text
  "Hi" whose \<open>start\<close> and \<open>end\<close> hold \<open>None\<close>, with \<open>min_chars = 10\<close>, the loop ends
  with a non-empty accumulator and no recorded time, and the trailing block takes the
  fallback for both times.
\<close>

theorem fallback_counterexample:
  "words_loop 10 [null_word ''Hi''] (init_state 1) = Inr null_state \<and>
   uses_fallback null_state \<and>
   process_segment_with_words 10 null_segment 1 =
     Inr ([\<lparr>index = 1, start = Timedelta 0, end' = Timedelta 0, content = ''Hi''\<rparr>], 2)"
  by code_simp

section \<open>Start times of the blocks\<close>

lemma sorted_subseq: "subseq xs ys \<Longrightarrow> sorted ys \<Longrightarrow> sorted xs"
proof (induction rule: list_emb.induct)
  case (list_emb_Nil ys)
  then show ?case by simp
next
  case (list_emb_Cons xs ys y)
  then show ?case by simp
next
  case (list_emb_Cons2 x y xs ys)
  from list_emb_Cons2(2) have "set xs \<subseteq> set ys" by (auto elim: list_emb_set)
  with list_emb_Cons2 show ?case by auto
qed

lemma word_starts_Cons: "word_starts (w # ws) = word_starts [w] @ word_starts ws"
  by (simp add: word_starts_def split: option.splits)

lemma word_step_starts:
  assumes "word_step mc w st = Inr st'" "start_inv st" "start_numeric w"
  shows "\<exists>X. subseq X (word_starts [w]) \<and>
           starts_so_far st' = starts_so_far st @ map timedelta_seconds X"
  using assms(1)
proof (cases rule: word_step_cases)
  case blank
  then show ?thesis by (intro exI[of _ "[]"]) simp
next
  case (keep e)
  show ?thesis
  proof (cases "accumulated_text st = []")
    case True
    with keep assms(3) obtain s where s: "w_start w = Some (Some s)"
      by (auto simp: start_numeric_def)
    from True assms(2) have "start_time st = None" by (simp add: start_inv_def)
    with keep s True show ?thesis
      by (intro exI[of _ "[s]"])
        (simp add: starts_so_far_def pending_start_def block_start_def held_def word_starts_def)
  next
    case False
    with keep show ?thesis
      by (intro exI[of _ "[]"]) (simp add: starts_so_far_def pending_start_def block_start_def)
  qed
next
  case (flush s e sd ed)
  show ?thesis
  proof (cases "accumulated_text st = []")
    case True
    from True assms(2) have "start_time st = None" by (simp add: start_inv_def)
    with flush True show ?thesis
      by (intro exI[of _ "[s]"])
        (simp add: starts_so_far_def pending_start_def block_start_def word_starts_def)
  next
    case False
    with flush show ?thesis
      by (intro exI[of _ "[]"]) (simp add: starts_so_far_def pending_start_def block_start_def)
  qed
qed

lemma words_loop_starts:
  "words_loop mc ws st = Inr st' \<Longrightarrow> start_inv st \<Longrightarrow> list_all start_numeric ws \<Longrightarrow>
   \<exists>X. subseq X (word_starts ws) \<and>
       starts_so_far st' = starts_so_far st @ map timedelta_seconds X"
proof (induction ws arbitrary: st)
  case Nil
  then show ?case by (intro exI[of _ "[]"]) simp
next
  case (Cons w ws)
  from Cons.prems(1) obtain st1 where
    one: "word_step mc w st = Inr st1" and rest: "words_loop mc ws st1 = Inr st'"
    by (auto split: sum.splits)
  from Cons.prems(3) have num: "start_numeric w" "list_all start_numeric ws" by simp_all
  from one Cons.prems(2) num(1) have inv1: "start_inv st1" by (rule word_step_start_inv)
  from word_step_starts[OF one Cons.prems(2) num(1)] obtain X1 where
    X1: "subseq X1 (word_starts [w])"
      "starts_so_far st1 = starts_so_far st @ map timedelta_seconds X1"
    by blast
  from Cons.IH[OF rest inv1 num(2)] obtain X2 where
    X2: "subseq X2 (word_starts ws)"
      "starts_so_far st' = starts_so_far st1 @ map timedelta_seconds X2"
    by blast
  from X1(1) X2(1) have "subseq (X1 @ X2) (word_starts (w # ws))"
    unfolding word_starts_Cons[of w ws] by (rule list_emb_append_mono)
  with X1(2) X2(2) show ?case by (intro exI[of _ "X1 @ X2"]) simp
qed

lemma trailing_block_starts:
  assumes "trailing_block st = Inr (bs, j)" "start_inv st"
  shows "map (\<lambda>b. Inr (start b)) bs = starts_so_far st"
  using assms
  by (auto simp: trailing_block_def starts_so_far_def pending_start_def start_inv_def
      split: if_splits sum.splits option.splits)

lemma with_words_starts:
  assumes "process_segment_with_words mc seg i = Inr (bs, j)" "seg_words seg = Some ws"
    "list_all start_numeric ws"
  shows "\<exists>X. subseq X (word_starts ws) \<and> map (\<lambda>b. Inr (start b)) bs = map timedelta_seconds X"
proof -
  from assms(1) obtain ws' st where
    "seg_words seg = Some ws'" and
    loop: "words_loop mc ws' (init_state i) = Inr st" and tr: "trailing_block st = Inr (bs, j)"
    by (rule with_words_obtain)
  with assms(2) have loop': "words_loop mc ws (init_state i) = Inr st" by simp
  from loop' start_inv_init assms(3) have inv: "start_inv st" by (rule words_loop_start_inv)
  have "starts_so_far (init_state i) = []"
    by (simp add: starts_so_far_def pending_start_def init_state_def)
  with words_loop_starts[OF loop' start_inv_init assms(3)] trailing_block_starts[OF tr inv]
  show ?thesis by simp
qed

lemma starts_pointwise:
  "map (\<lambda>b. Inr (start b)) bs = map timedelta_seconds X \<Longrightarrow>
   map (microseconds \<circ> start) bs = map to_microseconds X"
proof (induction bs arbitrary: X)
  case Nil
  then show ?case by simp
next
  case (Cons b bs)
  then obtain x X' where "X = x # X'" by (cases X) auto
  with Cons show ?case by (auto dest: sym[THEN timedelta_seconds_microseconds])
qed

lemma sorted_map_microseconds: "sorted X \<Longrightarrow> sorted (map to_microseconds X)"
  by (induction X) (auto intro!: to_microseconds_mono)

lemma in_word_starts:
  "s \<in> set (word_starts ws) \<Longrightarrow> \<exists>w\<in>set ws. nonblank w \<and> w_start w = Some (Some s)"
  by (induction ws) (auto simp: word_starts_def held_def split: if_splits option.splits)

text \<open>
  C5, as the code has it. For a word-level segment whose words that are not blank hold
  numbers under \<open>start\<close> where this key is there: the start times of the blocks are,
  in order, \<open>timedelta(seconds=s)\<close> for the starts \<open>s\<close> of some of these words, taken in
  the order of the words; so when the recorded start times of these words do not
  decrease, the start times of the blocks do not decrease; and the start of every
  block is \<open>timedelta(seconds=s)\<close> for the recorded start \<open>s\<close> of a word of the segment
  that is not blank.
\<close>

theorem block_starts_follow_words:
  assumes "process_segment_with_words min_chars seg i = Inr (bs, j)" "seg_words seg = Some ws"
    "list_all start_numeric ws"
  shows "(\<exists>X. subseq X (word_starts ws) \<and>
            map (\<lambda>b. Inr (start b)) bs = map timedelta_seconds X) \<and>
         (sorted (word_starts ws) \<longrightarrow> sorted (map (microseconds \<circ> start) bs)) \<and>
         (\<forall>b\<in>set bs. \<exists>w\<in>set ws. \<exists>s. nonblank w \<and> w_start w = Some (Some s) \<and>
                         timedelta_seconds s = Inr (start b))"
proof -
  from with_words_starts[OF assms] obtain X where
    sub: "subseq X (word_starts ws)"
    and eq: "map (\<lambda>b. Inr (start b)) bs = map timedelta_seconds X"
    by blast
  have "sorted (map (microseconds \<circ> start) bs)" if "sorted (word_starts ws)"
  proof -
    from sub that have "sorted X" by (rule sorted_subseq)
    then show ?thesis unfolding starts_pointwise[OF eq] by (rule sorted_map_microseconds)
  qed
  moreover have "\<exists>w\<in>set ws. \<exists>s. nonblank w \<and> w_start w = Some (Some s) \<and>
                         timedelta_seconds s = Inr (start b)" if "b \<in> set bs" for b
  proof -
    from that have "(Inr (start b) :: error + timedelta) \<in> set (map (\<lambda>b. Inr (start b)) bs)"
      by simp
    then have "Inr (start b) \<in> set (map timedelta_seconds X)" by (simp only: eq)
    then obtain s where s: "s \<in> set X" "timedelta_seconds s = Inr (start b)" by auto
    from sub s(1) have "s \<in> set (word_starts ws)" by (auto elim: list_emb_set)
    with in_word_starts s(2) show ?thesis by blast
  qed
  ultimately show ?thesis using sub eq by blast
qed

lemma scenario_starts_sorted: "sorted (word_starts scenario_words)"
  by code_simp

lemma scenario_start_numeric: "list_all start_numeric scenario_words"
  by code_simp

theorem block_starts_follow_words_witness:
  "process_segment_with_words 2 scenario_segment 1 = Inr (blocks_min_2, 4) \<and>
   seg_words scenario_segment = Some scenario_words \<and>
   list_all start_numeric scenario_words \<and>
   sorted (word_starts scenario_words) \<and>
   sorted (map (microseconds \<circ> start) blocks_min_2)"
  using block_starts_follow_words [OF scenario_min_2 scenario_words_key scenario_start_numeric]
    scenario_min_2 scenario_words_key scenario_start_numeric scenario_starts_sorted
  by simp

text \<open>
  The claim as stated fails when the recorded start times decrease: the words
  ("afterwards", 5, 6), ("beforehand", 1, 2) with \<open>min_chars = 10\<close> give two blocks, the
  second starting before the first. It also fails when a \<open>start\<close> holds \<open>None\<close>: after
  ("afterwards", 5, 6), the word "Hi" with \<open>None\<close> for both times gives a trailing block
  that starts at zero, which is the start of no word.
\<close>

theorem block_starts_counterexample:
  "process_segment_with_words 10 out_of_order_segment 1 = Inr (out_of_order_blocks, 3) \<and>
   microseconds (start (out_of_order_blocks ! 1)) <
     microseconds (start (out_of_order_blocks ! 0)) \<and>
   process_segment_with_words 10 late_null_segment 1 = Inr (late_null_blocks, 3) \<and>
   microseconds (start (late_null_blocks ! 1)) < microseconds (start (late_null_blocks ! 0))"
  by code_simp

section \<open>Errors\<close>

lemma converts_obtain:
  assumes "converts s"
  obtains td where "timedelta_seconds s = Inr td"
  using assms by (auto simp: converts_def split: sum.splits)

lemma field_accepted_cases:
  assumes "field_accepted field"
  obtains (absent) "field = None" | (number) s where "field = Some (Some s)" "converts s"
  using assms by (auto simp: field_accepted_def split: option.splits)

lemma field_accepted_held: "field_accepted field \<Longrightarrow> value_accepted (held field)"
  by (auto simp: field_accepted_def value_accepted_def held_def split: option.splits)

lemma value_accepted_returns:
  "value_accepted v \<Longrightarrow> v \<noteq> None \<Longrightarrow> \<exists>td. timedelta_of v = Inr td"
  by (auto simp: value_accepted_def timedelta_of_def converts_def split: sum.splits)

lemma word_accepted_numeric: "word_accepted w \<Longrightarrow> times_numeric w"
  by (auto simp: word_accepted_def times_numeric_def field_accepted_def)

lemma loop_ok_init: "loop_ok (init_state i)"
  by (simp add: loop_ok_def timing_inv_def init_state_def value_accepted_def)

lemma word_step_loop_ok:
  assumes "word_step mc w st = Inr st'" "loop_ok st" "word_accepted w"
  shows "loop_ok st'"
  using assms(1)
proof (cases rule: word_step_cases)
  case blank
  with assms show ?thesis by simp
next
  case (keep e)
  from assms(3) keep(1) have fs: "field_accepted (w_start w)" and fe: "field_accepted (w_end w)"
    by (simp_all add: word_accepted_def)
  from assms have "timing_inv st'"
    by (auto simp: loop_ok_def dest: word_step_timing_inv word_accepted_numeric)
  moreover from assms(2) fs have "value_accepted (block_start st w)"
    by (simp add: block_start_def loop_ok_def field_accepted_held)
  moreover from fe keep have "value_accepted e"
    using field_accepted_held[of "w_end w"] by (simp add: held_def)
  ultimately show ?thesis using keep by (simp add: loop_ok_def)
next
  case (flush s e sd ed)
  then show ?thesis by (simp add: loop_ok_def timing_inv_def value_accepted_def)
qed

text \<open>What fails in a run whose timings are accepted is the reading of a key.\<close>

lemma word_step_failure:
  assumes "word_step mc w st = Inl err" "loop_ok st" "word_accepted w"
  shows "\<exists>k. err = KeyError k"
proof -
  from assms(1) have nb: "strip (get_text (w_text w)) \<noteq> []"
    by (auto simp: word_step_def Let_def split: if_splits)
  with assms(3) have fs: "field_accepted (w_start w)" and fe: "field_accepted (w_end w)"
    by (simp_all add: word_accepted_def nonblank_def)
  show ?thesis
  proof (cases "w_end w = None \<or> (accumulated_text st = [] \<and> w_start w = None)")
    case True
    with assms(1) nb show ?thesis
      by (auto simp: word_step_def Let_def getitem_def split: if_splits option.splits)
  next
    case False
    then obtain e where e: "w_end w = Some e" by auto
    with fe have "value_accepted e" "e \<noteq> None"
      by (auto simp: field_accepted_def value_accepted_def split: option.splits)
    then obtain ed where ed: "timedelta_of e = Inr ed" using value_accepted_returns by blast
    from False have read:
      "(if accumulated_text st = [] then getitem ''start'' (w_start w)
        else Inr (start_time st)) = Inr (block_start st w)"
      by (auto simp: block_start_def held_def getitem_def split: option.splits)
    from assms(2) fs have acc: "value_accepted (block_start st w)"
      by (simp add: block_start_def loop_ok_def field_accepted_held)
    have "block_start st w \<noteq> None"
      if "mc \<le> int (length (joined_text st w))"
    proof (cases "accumulated_text st = []")
      case True
      with False fs show ?thesis
        by (auto simp: block_start_def held_def field_accepted_def split: option.splits)
    next
      case False
      with assms(2) show ?thesis by (simp add: block_start_def loop_ok_def timing_inv_def)
    qed
    with acc have sd: "\<exists>sd. timedelta_of (block_start st w) = Inr sd"
      if "mc \<le> int (length (joined_text st w))"
      using that value_accepted_returns by blast
    have step: "\<exists>st'.
      (if mc \<le> int (length (joined_text st w)) then
         (case timedelta_of (block_start st w) of
            Inl e \<Rightarrow> Inl e
          | Inr start_td \<Rightarrow>
              (case timedelta_of e of
                 Inl e \<Rightarrow> Inl e
               | Inr end_td \<Rightarrow>
                   Inr \<lparr>subtitles = subtitles st @
                          [\<lparr>index = cur_index st, start = start_td, end' = end_td,
                            content = joined_text st w\<rparr>],
                        accumulated_text = [], start_time = None, end_time = None,
                        cur_index = cur_index st + 1\<rparr>))
       else Inr (st\<lparr>accumulated_text := joined_text st w, start_time := block_start st w,
                    end_time := e\<rparr>)) = Inr st'"
    proof (cases "mc \<le> int (length (joined_text st w))")
      case True
      with sd obtain sd' where "timedelta_of (block_start st w) = Inr sd'" by blast
      with True ed show ?thesis by simp
    next
      case False
      then show ?thesis by simp
    qed
    have joined: "(if accumulated_text st \<noteq> []
        then accumulated_text st @ '' '' @ strip (get_text (w_text w))
        else strip (get_text (w_text w))) = joined_text st w"
      by (simp add: joined_text_def join_word_def)
    from nb step have "\<exists>st'. word_step mc w st = Inr st'"
      unfolding word_step_def Let_def read joined by (simp add: e getitem_def)
    with assms(1) show ?thesis by simp
  qed
qed

lemma words_loop_loop_ok:
  "words_loop mc ws st = Inr st' \<Longrightarrow> loop_ok st \<Longrightarrow> list_all word_accepted ws \<Longrightarrow> loop_ok st'"
proof (induction ws arbitrary: st)
  case Nil
  then show ?case by simp
next
  case (Cons w ws)
  from Cons.prems(1) obtain st1 where
    one: "word_step mc w st = Inr st1" and rest: "words_loop mc ws st1 = Inr st'"
    by (auto split: sum.splits)
  from Cons.prems(2,3) have "loop_ok st1" by (auto intro: word_step_loop_ok[OF one])
  with Cons.IH[OF rest] Cons.prems(3) show ?case by simp
qed

lemma words_loop_failure:
  "words_loop mc ws st = Inl err \<Longrightarrow> loop_ok st \<Longrightarrow> list_all word_accepted ws \<Longrightarrow>
   \<exists>k. err = KeyError k"
proof (induction ws arbitrary: st)
  case Nil
  then show ?case by simp
next
  case (Cons w ws)
  show ?case
  proof (cases "word_step mc w st")
    case (Inl e)
    with Cons.prems show ?thesis by (auto dest: word_step_failure)
  next
    case (Inr st1)
    with Cons.prems(2,3) have "loop_ok st1" by (auto intro: word_step_loop_ok)
    with Cons.IH[of st1] Cons.prems Inr show ?thesis by simp
  qed
qed

lemma trailing_block_returns:
  assumes "loop_ok st"
  shows "\<exists>r. trailing_block st = Inr r"
proof (cases "accumulated_text st = []")
  case True
  then show ?thesis by (simp add: trailing_block_def)
next
  case False
  with assms obtain s e where se: "start_time st = Some s" "end_time st = Some e"
    by (auto simp: loop_ok_def timing_inv_def)
  with assms obtain sd ed where "timedelta_seconds s = Inr sd" "timedelta_seconds e = Inr ed"
    by (auto simp: loop_ok_def value_accepted_def elim!: converts_obtain)
  with False se show ?thesis by (simp add: trailing_block_def)
qed

lemma with_words_failure:
  assumes "process_segment_with_words mc seg i = Inl err" "seg_words seg = Some ws"
    "list_all word_accepted ws"
  shows "\<exists>k. err = KeyError k"
proof (cases "words_loop mc ws (init_state i)")
  case (Inl e)
  with assms(1,2) have "e = err" by (simp add: process_segment_with_words_def getitem_def)
  with Inl loop_ok_init assms(3) show ?thesis by (auto dest: words_loop_failure)
next
  case (Inr st)
  from Inr loop_ok_init assms(3) have "loop_ok st" by (rule words_loop_loop_ok)
  then obtain r where "trailing_block st = Inr r" using trailing_block_returns by blast
  with assms(1,2) Inr show ?thesis by (simp add: process_segment_with_words_def getitem_def)
qed

lemma without_words_failure:
  assumes "process_segment_without_words seg i = Inl err"
    "field_accepted (seg_start seg)" "field_accepted (seg_end seg)"
  shows "\<exists>k. err = KeyError k"
  using assms(2)
proof (cases rule: field_accepted_cases)
  case absent
  with assms(1) show ?thesis
    by (auto simp: process_segment_without_words_def getitem_def)
next
  case (number s)
  then obtain sd where sd: "timedelta_seconds s = Inr sd" by (auto elim: converts_obtain)
  from assms(3) show ?thesis
  proof (cases rule: field_accepted_cases)
    case absent
    with assms(1) number sd show ?thesis
      by (auto simp: process_segment_without_words_def getitem_def timedelta_of_def)
  next
    case end_number: (number t)
    then obtain ed where "timedelta_seconds t = Inr ed" by (auto elim: converts_obtain)
    with assms(1) number sd end_number show ?thesis
      by (simp add: process_segment_without_words_def getitem_def timedelta_of_def)
  qed
qed

lemma segment_step_failure:
  assumes "segment_step mc seg i = Inl err" "segment_accepted seg"
  shows "\<exists>k. err = KeyError k"
proof (cases "seg_words seg")
  case None
  with assms show ?thesis
    by (auto simp: segment_step_def segment_accepted_def dest: without_words_failure
        split: sum.splits)
next
  case (Some ws)
  with assms show ?thesis
    by (auto simp: segment_step_def segment_accepted_def dest: with_words_failure)
qed

lemma segments_loop_failure:
  "segments_loop mc segs subs idx = Inl err \<Longrightarrow> list_all segment_accepted segs \<Longrightarrow>
   \<exists>k. err = KeyError k"
proof (induction segs arbitrary: subs idx)
  case Nil
  then show ?case by simp
next
  case (Cons seg segs)
  show ?case
  proof (cases "segment_step mc seg idx")
    case (Inl e)
    with Cons.prems show ?thesis by (auto dest: segment_step_failure)
  next
    case (Inr r)
    with Cons.prems Cons.IH show ?thesis by (cases r) auto
  qed
qed

text \<open>A run that returns has found every key it read.\<close>

lemma word_step_accumulator:
  assumes "word_step mc w st = Inr st'" "nonblank w"
  shows "accumulated_text st' =
    (if mc \<le> int (length (join_word (accumulated_text st) w)) then []
     else join_word (accumulated_text st) w)"
  using assms by (cases rule: word_step_cases) (auto simp: joined_text_def)

lemma word_step_read:
  assumes "word_step mc w st = Inr st'" "nonblank w"
  shows "w_end w \<noteq> None" "accumulated_text st = [] \<longrightarrow> w_start w \<noteq> None"
  using assms by (cases rule: word_step_cases; auto)+

lemma words_loop_read:
  "words_loop mc ws st = Inr st' \<Longrightarrow> \<not> loop_reads_absent mc (accumulated_text st) ws"
proof (induction ws arbitrary: st)
  case Nil
  then show ?case by simp
next
  case (Cons w ws)
  from Cons.prems obtain st1 where
    one: "word_step mc w st = Inr st1" and rest: "words_loop mc ws st1 = Inr st'"
    by (auto split: sum.splits)
  show ?case
  proof (cases "nonblank w")
    case True
    from word_step_read[OF one True] word_step_accumulator[OF one True] Cons.IH[OF rest] True
    show ?thesis by simp
  next
    case False
    with one have "st1 = st" by (simp add: word_step_blank nonblank_def)
    with Cons.IH[OF rest] False show ?thesis by simp
  qed
qed

lemma segment_step_read:
  assumes "segment_step mc seg i = Inr r"
  shows "\<not> segment_reads_absent mc seg"
proof (cases "seg_words seg")
  case None
  with assms show ?thesis
    by (auto simp: segment_step_def segment_reads_absent_def process_segment_without_words_def
        getitem_def split: sum.splits option.splits)
next
  case (Some ws)
  with assms obtain st where "words_loop mc ws (init_state i) = Inr st"
    by (auto simp: segment_step_def process_segment_with_words_def getitem_def
        split: sum.splits)
  from words_loop_read[OF this] Some show ?thesis
    by (simp add: segment_reads_absent_def init_state_def)
qed

lemma segments_loop_read:
  "segments_loop mc segs subs idx = Inr out \<Longrightarrow> \<not> list_ex (segment_reads_absent mc) segs"
proof (induction segs arbitrary: subs idx)
  case Nil
  then show ?case by simp
next
  case (Cons seg segs)
  from Cons.prems obtain sb j where
    step: "segment_step mc seg idx = Inr (sb, j)"
    and rest: "segments_loop mc segs (subs @ sb) j = Inr out"
    by (auto split: sum.splits)
  from segment_step_read[OF step] Cons.IH[OF rest] show ?case by simp
qed

text \<open>A run whose timings are accepted and that finds every key it reads returns.\<close>

lemma word_step_returns:
  assumes "loop_ok st" "word_accepted w"
    "nonblank w \<longrightarrow> w_end w \<noteq> None \<and> (accumulated_text st = [] \<longrightarrow> w_start w \<noteq> None)"
  shows "\<exists>st'. word_step mc w st = Inr st'"
proof (cases "word_step mc w st")
  case (Inl err)
  then have nb: "nonblank w" by (auto simp: word_step_def nonblank_def Let_def split: if_splits)
  from word_step_failure[OF Inl assms(1,2)] obtain k where k: "err = KeyError k" by blast
  from Inl k assms(3) nb show ?thesis
    by (auto simp: word_step_def Let_def getitem_def timedelta_of_def
        dest: timedelta_seconds_error split: if_splits option.splits sum.splits)
next
  case (Inr st')
  then show ?thesis by blast
qed

lemma words_loop_returns:
  "loop_ok st \<Longrightarrow> list_all word_accepted ws \<Longrightarrow>
   \<not> loop_reads_absent mc (accumulated_text st) ws \<Longrightarrow>
   \<exists>st'. words_loop mc ws st = Inr st'"
proof (induction ws arbitrary: st)
  case Nil
  then show ?case by simp
next
  case (Cons w ws)
  from Cons.prems have "nonblank w \<longrightarrow>
      w_end w \<noteq> None \<and> (accumulated_text st = [] \<longrightarrow> w_start w \<noteq> None)"
    by auto
  with Cons.prems obtain st1 where one: "word_step mc w st = Inr st1"
    using word_step_returns[of st w mc] by auto
  from Cons.prems have ok: "loop_ok st1" by (auto intro: word_step_loop_ok[OF one])
  have "\<not> loop_reads_absent mc (accumulated_text st1) ws"
  proof (cases "nonblank w")
    case True
    with Cons.prems(3) word_step_accumulator[OF one True] show ?thesis by simp
  next
    case False
    with one have "st1 = st" by (simp add: word_step_blank nonblank_def)
    with Cons.prems(3) False show ?thesis by simp
  qed
  with Cons.IH[OF ok] Cons.prems(2) one show ?case by simp
qed

lemma wellformed_reads:
  "list_all word_wellformed ws \<Longrightarrow> \<not> loop_reads_absent mc acc ws"
  by (induction ws arbitrary: acc) (auto simp: word_wellformed_def)

lemma segment_wellformed_reads: "segment_wellformed seg \<Longrightarrow> \<not> segment_reads_absent mc seg"
  by (auto simp: segment_wellformed_def segment_reads_absent_def wellformed_reads
      split: option.splits)

lemma segment_step_returns:
  assumes "segment_accepted seg" "\<not> segment_reads_absent mc seg"
  shows "\<exists>r. segment_step mc seg i = Inr r"
proof (cases "seg_words seg")
  case None
  with assms obtain s e where "seg_start seg = Some (Some s)" "seg_end seg = Some (Some e)"
    "converts s" "converts e"
    by (auto simp: segment_accepted_def segment_reads_absent_def
        elim!: field_accepted_cases)
  moreover then obtain sd ed where
    "timedelta_seconds s = Inr sd" "timedelta_seconds e = Inr ed"
    by (auto elim!: converts_obtain)
  ultimately show ?thesis using None
    by (simp add: segment_step_def process_segment_without_words_def getitem_def
        timedelta_of_def)
next
  case (Some ws)
  with assms have acc: "list_all word_accepted ws"
    and present: "\<not> loop_reads_absent mc (accumulated_text (init_state i)) ws"
    by (simp_all add: segment_accepted_def segment_reads_absent_def init_state_def)
  from loop_ok_init acc present obtain st where
    loop: "words_loop mc ws (init_state i) = Inr st"
    using words_loop_returns by blast
  from loop loop_ok_init acc have "loop_ok st" by (rule words_loop_loop_ok)
  then obtain r where "trailing_block st = Inr r" using trailing_block_returns by blast
  with Some loop show ?thesis
    by (simp add: segment_step_def process_segment_with_words_def getitem_def)
qed

lemma segments_loop_returns:
  "list_all segment_accepted segs \<Longrightarrow> \<not> list_ex (segment_reads_absent mc) segs \<Longrightarrow>
   \<exists>out. segments_loop mc segs subs idx = Inr out"
proof (induction segs arbitrary: subs idx)
  case Nil
  then show ?case by simp
next
  case (Cons seg segs)
  from Cons.prems obtain sb j where "segment_step mc seg idx = Inr (sb, j)"
    using segment_step_returns[of seg mc idx] by auto
  with Cons.IH[of "subs @ sb" j] Cons.prems show ?case by simp
qed

lemma wellformed_reads_all: "wellformed result \<Longrightarrow> \<not> reads_absent mc result"
  by (auto simp: wellformed_def reads_absent_def list_all_iff list_ex_iff
      dest: segment_wellformed_reads)

text \<open>
  C8, as the code has it. When every word of a word-level segment and every flat
  segment has its \<open>start\<close> and \<open>end\<close>, and every timing is a number that \<open>timedelta\<close>
  accepts, \<open>process_transcription\<close> returns a list. When a key that the code reads is
  absent (\<open>end\<close> on a word that is not blank, \<open>start\<close> on such a word that opens a block,
  \<open>start\<close> or \<open>end\<close> on a flat segment), an error ends the run and no list is returned;
  with timings that are accepted this error is a \<open>KeyError\<close>, and with such timings and
  no read key absent the run returns.
\<close>

theorem completes_or_key_error:
  "(wellformed result \<and> timings_accepted result \<longrightarrow>
      (\<exists>bs. process_transcription min_chars result = Inr bs)) \<and>
   (reads_absent min_chars result \<longrightarrow>
      (\<exists>e. process_transcription min_chars result = Inl e)) \<and>
   (reads_absent min_chars result \<and> timings_accepted result \<longrightarrow>
      (\<exists>k. process_transcription min_chars result = Inl (KeyError k))) \<and>
   (\<not> reads_absent min_chars result \<and> timings_accepted result \<longrightarrow>
      (\<exists>bs. process_transcription min_chars result = Inr bs))"
proof -
  have returns: "\<exists>bs. process_transcription min_chars result = Inr bs"
    if "\<not> reads_absent min_chars result" "timings_accepted result"
    using that
    by (simp add: reads_absent_def timings_accepted_def process_transcription_def
        segments_loop_returns)
  have fails: "\<exists>e. process_transcription min_chars result = Inl e"
    if "reads_absent min_chars result"
  proof (cases "process_transcription min_chars result")
    case (Inl e)
    then show ?thesis by blast
  next
    case (Inr bs)
    with that show ?thesis
      by (auto simp: reads_absent_def process_transcription_def dest: segments_loop_read)
  qed
  have key: "\<exists>k. process_transcription min_chars result = Inl (KeyError k)"
    if "reads_absent min_chars result" "timings_accepted result"
  proof -
    from fails[OF that(1)] obtain e where e: "process_transcription min_chars result = Inl e"
      by blast
    with that(2) have "\<exists>k. e = KeyError k"
      by (auto simp: timings_accepted_def process_transcription_def
          dest: segments_loop_failure)
    with e show ?thesis by auto
  qed
  from returns fails key wellformed_reads_all[of result min_chars] show ?thesis by blast
qed

lemma scenario_wellformed: "wellformed scenario_result \<and> timings_accepted scenario_result"
  by code_simp

lemma reopened_reads_absent:
  "reads_absent 10 reopened_result \<and> timings_accepted reopened_result"
  by code_simp

lemma reopened_key: "process_transcription 10 reopened_result = Inl (KeyError ''start'')"
  by code_simp

lemma truncated_key: "process_transcription 10 truncated_result = Inl (KeyError ''end'')"
  by code_simp

lemma continued_reads:
  "\<not> reads_absent 10 continued_result \<and> timings_accepted continued_result"
  by code_simp

text \<open>
  The \<open>start\<close> of a word that continues a block is never read: its absence raises
  nothing.
\<close>

lemma continued_word_start_not_read:
  "process_transcription 10 continued_result =
     Inr [\<lparr>index = 1, start = Timedelta 0, end' = Timedelta 1000000,
           content = ''Hi there''\<rparr>]"
  by code_simp

theorem completes_or_key_error_witness:
  "wellformed scenario_result \<and> timings_accepted scenario_result \<and>
   process_transcription 10 scenario_result = Inr (blocks_min_10 @ [flat_block 2]) \<and>
   reads_absent 10 reopened_result \<and> timings_accepted reopened_result \<and>
   (\<exists>k. process_transcription 10 reopened_result = Inl (KeyError k)) \<and>
   \<not> reads_absent 10 continued_result \<and> timings_accepted continued_result \<and>
   (\<exists>bs. process_transcription 10 continued_result = Inr bs)"
  using completes_or_key_error [of scenario_result 10]
    completes_or_key_error [of reopened_result 10]
    completes_or_key_error [of continued_result 10]
    scenario_wellformed reopened_reads_absent continued_reads scenario_result_min_10
  by simp

text \<open>
  The claim as stated fails when a timing is beyond what \<open>timedelta\<close> can hold, and when
  a timing is \<open>None\<close>: a flat segment with both keys there, starting at \<open>10^14\<close> seconds
  (more than 999999999 days), ends the run with \<open>OverflowError\<close>; a flat segment with
  both keys there, holding \<open>None\<close>, ends it with \<open>TypeError\<close>.
\<close>

theorem completes_counterexample:
  "wellformed far_future_result \<and>
   process_transcription 10 far_future_result = Inl OverflowError \<and>
   wellformed null_flat_result \<and>
   process_transcription 10 null_flat_result = Inl TypeError"
  by code_simp

end
